theory Spec2Isabelle
  imports
    Main
    "HOL-Library.Multiset"
    "HOL-Library.Monad_Syntax"
    "HOL-Library.Log_Nat"
    "HOL-Library.Sublist"
begin

section \<open>Data model of \<^verbatim>\<open>ransac.cpp\<close>\<close>

text \<open>
  The C++ \<^verbatim>\<open>float\<close> and \<^verbatim>\<open>double\<close> values are modelled by the rational numbers they
  denote (every finite binary floating-point value is a rational); infinities and NaN are
  not represented. The fields \<^verbatim>\<open>x\<close>, \<^verbatim>\<open>y\<close> of \<^verbatim>\<open>node_t\<close> and \<^verbatim>\<open>m\<close>, \<^verbatim>\<open>b\<close> of \<^verbatim>\<open>line_t\<close>
  are called \<open>node_x\<close>, \<open>node_y\<close>, \<open>line_m\<close>, \<open>line_b\<close>, since one-letter constants would
  capture the variables of every later statement.
\<close>

record node_t =
  node_x :: rat
  node_y :: rat
  angle :: rat

record line_t =
  line_m :: rat
  line_b :: rat

text \<open>
  The rounding that ends every floating-point operation is a parameter of the model:
  \<open>to_float\<close> rounds an exact result to a value of type \<^verbatim>\<open>float\<close>, \<open>to_double\<close> to a value
  of type \<^verbatim>\<open>double\<close>. Each C++ operation is the exact operation followed by the rounding
  of its result type (operands of mixed type are converted to the wider type first, which
  is exact).
\<close>

record arith =
  to_float :: "rat \<Rightarrow> rat"
  to_double :: "rat \<Rightarrow> rat"

text \<open>Exact arithmetic: no operation rounds.\<close>

definition exact :: arith where
  "exact = \<lparr>to_float = (\<lambda>q. q), to_double = (\<lambda>q. q)\<rparr>"

text \<open>
  Binary floating point, round to nearest, ties to even: \<open>round_to p emin\<close> rounds to
  \<open>p\<close> significant bits, with \<open>emin\<close> the exponent of the smallest normal number (below
  it the spacing stays that of the subnormal numbers). Overflow to infinity is not
  modelled. \<open>ieee\<close> is binary32 for \<^verbatim>\<open>float\<close> and binary64 for \<^verbatim>\<open>double\<close>, every operation
  rounded to the format of its C++ type (no excess precision, no fused multiply-add), as
  compilers for x86-64 and ARM do by default.
\<close>

definition pw2 :: "int \<Rightarrow> rat" where
  "pw2 e = (if 0 \<le> e then 2 ^ nat e else 1 / 2 ^ nat (- e))"

definition rne :: "rat \<Rightarrow> int" where
  "rne q = (let f = \<lfloor>q\<rfloor>; d = q - of_int f in
            if d < 1 / 2 then f else if 1 / 2 < d then f + 1
            else if even f then f else f + 1)"

definition ilog2 :: "rat \<Rightarrow> int" where
  "ilog2 q = (case quotient_of q of (a, b) \<Rightarrow>
      (let k = bitlen a - bitlen b in if pw2 k \<le> q then k else k - 1))"

definition round_to :: "nat \<Rightarrow> int \<Rightarrow> rat \<Rightarrow> rat" where
  "round_to p emin q = (if q = 0 then 0 else
     (let e = max (ilog2 \<bar>q\<bar>) emin; u = pw2 (e - int p + 1)
      in of_int (rne (q / u)) * u))"

definition ieee :: arith where
  "ieee = \<lparr>to_float = round_to 24 (- 126), to_double = round_to 53 (- 1022)\<rparr>"

text \<open>
  The members of class \<^verbatim>\<open>Ransac\<close>: the five parameters set by the constructor, and the
  vector \<^verbatim>\<open>reg_lines\<close> of accepted lines. The scratch buffer \<^verbatim>\<open>temp_nodes\<close> is never read
  or written by the code modelled here and is left out.
\<close>

record ransac =
  max_trials :: int
  sample_size :: int
  sample_deviation :: rat
  proximity_epsilon :: rat
  line_consensus :: int
  reg_lines :: "line_t list"

section \<open>Array accesses\<close>

text \<open>
  \<^verbatim>\<open>node_t nodes[]\<close> is a list. An index outside the array is undefined behaviour in C++;
  the model returns \<open>None\<close> there, and \<open>None\<close> propagates through every caller.
  Indices, sizes and the trial counter are never negative where the code uses them and are
  natural numbers; the parameters \<^verbatim>\<open>max_trials\<close>, \<^verbatim>\<open>sample_size\<close> and \<^verbatim>\<open>line_consensus\<close> may be
  negative and are integers. No sum the code forms exceeds twice the size of the array,
  so the wrap-around of \<^verbatim>\<open>int\<close> is not modelled.
\<close>

definition node_at :: "node_t list \<Rightarrow> nat \<Rightarrow> node_t option" where
  "node_at nodes i = (if i < length nodes then Some (nodes ! i) else None)"

definition node_put :: "node_t list \<Rightarrow> nat \<Rightarrow> node_t \<Rightarrow> node_t list option" where
  "node_put nodes i v = (if i < length nodes then Some (nodes[i := v]) else None)"

section \<open>\<^verbatim>\<open>line_t::get_x\<close>, \<^verbatim>\<open>line_t::get_y\<close>\<close>

definition get_x :: "arith \<Rightarrow> line_t \<Rightarrow> rat \<Rightarrow> rat" where
  "get_x ar l yv =
     (if line_m l = 0 then 0
      else to_float ar (to_float ar (yv - line_b l) / line_m l))"

definition get_y :: "arith \<Rightarrow> line_t \<Rightarrow> rat \<Rightarrow> rat" where
  "get_y ar l xv = to_float ar (to_float ar (line_m l * xv) + line_b l)"

section \<open>\<^verbatim>\<open>Ransac::pop_node\<close>\<close>

text \<open>The shifting loop \<^verbatim>\<open>for (int i = node; i < size - 1; i++) nodes[i] = nodes[i + 1];\<close>\<close>

function pop_shift :: "nat \<Rightarrow> nat \<Rightarrow> node_t list \<Rightarrow> node_t list option" where
  "pop_shift i sz nodes =
     (if i + 1 < sz then
        (case node_at nodes (i + 1) of
           None \<Rightarrow> None
         | Some v \<Rightarrow>
             (case node_put nodes i v of
                None \<Rightarrow> None
              | Some nodes' \<Rightarrow> pop_shift (i + 1) sz nodes'))
      else Some nodes)"
  by pat_completeness auto
termination
  by (relation "measure (\<lambda>(i, sz, nodes). sz - i)") auto

declare pop_shift.simps [simp del]

text \<open>
  \<open>pop_node node nodes sz\<close> returns the array and the decremented \<^verbatim>\<open>size\<close> (written
  \<open>sz\<close>, since \<open>size\<close> is a constant of HOL). With \<open>sz = 0\<close> the store
  \<^verbatim>\<open>nodes[size - 1]\<close> is out of the array.
\<close>

definition pop_node :: "nat \<Rightarrow> node_t list \<Rightarrow> nat \<Rightarrow> (node_t list \<times> nat) option" where
  "pop_node node nodes sz = do {
     popped \<leftarrow> node_at nodes node;
     nodes1 \<leftarrow> pop_shift node sz nodes;
     nodes2 \<leftarrow> (if sz = 0 then None else node_put nodes1 (sz - 1) popped);
     Some (nodes2, sz - 1)
   }"

section \<open>\<^verbatim>\<open>Ransac::restore_trial\<close>\<close>

text \<open>The inner loop: \<open>select\<close> becomes the index of the largest angle among \<open>0..i\<close>.\<close>

function find_largest :: "node_t list \<Rightarrow> nat \<Rightarrow> nat \<Rightarrow> nat \<Rightarrow> nat option" where
  "find_largest nodes j i select =
     (if j \<le> i then
        (case node_at nodes j of
           None \<Rightarrow> None
         | Some nj \<Rightarrow>
             (case node_at nodes select of
                None \<Rightarrow> None
              | Some ns \<Rightarrow>
                  find_largest nodes (j + 1) i (if angle ns < angle nj then j else select)))
      else Some select)"
  by pat_completeness auto
termination
  by (relation "measure (\<lambda>(nodes, j, i, select). Suc i - j)") auto

declare find_largest.simps [simp del]

text \<open>The outer loop \<^verbatim>\<open>for (int i = original_size - 1; i > 0; i--)\<close>, by its counter.\<close>

fun restore_sort :: "nat \<Rightarrow> node_t list \<Rightarrow> node_t list option" where
  "restore_sort 0 nodes = Some nodes"
| "restore_sort (Suc k) nodes = do {
     select \<leftarrow> find_largest nodes 1 (Suc k) 0;
     high \<leftarrow> node_at nodes (Suc k);
     sel \<leftarrow> node_at nodes select;
     nodes1 \<leftarrow> node_put nodes (Suc k) sel;
     nodes2 \<leftarrow> node_put nodes1 select high;
     restore_sort k nodes2
   }"

definition restore_trial ::
  "node_t list \<Rightarrow> nat \<Rightarrow> nat \<Rightarrow> nat \<Rightarrow> (node_t list \<times> nat) option" where
  "restore_trial nodes ref_index original_size sz = do {
     nodes' \<leftarrow> restore_sort (original_size - 1) nodes;
     Some (nodes', original_size)
   }"

section \<open>\<^verbatim>\<open>Ransac::dst2_to_line\<close>\<close>

definition dst2_to_line :: "arith \<Rightarrow> line_t \<Rightarrow> rat \<Rightarrow> rat \<Rightarrow> rat" where
  "dst2_to_line ar l xv yv =
     (let numerator =
            \<bar>to_float ar (to_float ar (to_float ar (- line_m l * xv) + yv) - line_b l)\<bar>
      in to_float ar (to_float ar (numerator * numerator)
           / to_float ar (to_float ar (line_m l * line_m l) + 1)))"

section \<open>\<^verbatim>\<open>Ransac::compute_reg_line\<close>\<close>

record reg_sums =
  x_sum :: rat
  y_sum :: rat
  x2_sum :: rat
  xy_sum :: rat

text \<open>The summation loop; the products are \<^verbatim>\<open>float\<close> products, the sums \<^verbatim>\<open>double\<close> sums.\<close>

function sum_nodes :: "arith \<Rightarrow> nat \<Rightarrow> nat \<Rightarrow> node_t list \<Rightarrow> reg_sums \<Rightarrow> reg_sums option" where
  "sum_nodes ar i fin nodes s =
     (if i < fin then
        (case node_at nodes i of
           None \<Rightarrow> None
         | Some n \<Rightarrow>
             sum_nodes ar (i + 1) fin nodes
               \<lparr>x_sum = to_double ar (x_sum s + node_x n),
                y_sum = to_double ar (y_sum s + node_y n),
                x2_sum = to_double ar (x2_sum s + to_float ar (node_x n * node_x n)),
                xy_sum = to_double ar (xy_sum s + to_float ar (node_x n * node_y n))\<rparr>)
      else Some s)"
  by pat_completeness auto
termination
  by (relation "measure (\<lambda>(ar, i, fin, nodes, s). fin - i)") auto

declare sum_nodes.simps [simp del]

text \<open>
  The denominator \<^verbatim>\<open>(node_count * x2_sum) - (x_sum * x_sum)\<close> and the two numerators, each
  a \<^verbatim>\<open>double\<close> expression.
\<close>

definition reg_denom :: "arith \<Rightarrow> int \<Rightarrow> reg_sums \<Rightarrow> rat" where
  "reg_denom ar node_count s =
     to_double ar (to_double ar (of_int node_count * x2_sum s)
                   - to_double ar (x_sum s * x_sum s))"

definition reg_m_num :: "arith \<Rightarrow> int \<Rightarrow> reg_sums \<Rightarrow> rat" where
  "reg_m_num ar node_count s =
     to_double ar (to_double ar (of_int node_count * xy_sum s)
                   - to_double ar (x_sum s * y_sum s))"

definition reg_b_num :: "arith \<Rightarrow> reg_sums \<Rightarrow> rat" where
  "reg_b_num ar s =
     to_double ar (to_double ar (y_sum s * x2_sum s)
                   - to_double ar (x_sum s * xy_sum s))"

text \<open>
  The result is \<open>Some None\<close> for status \<open>-1\<close> and \<open>Some (Some line)\<close> for status \<open>0\<close> with
  the line written through the reference; the outer \<open>None\<close> is an access out of the array.
\<close>

definition compute_reg_line ::
  "arith \<Rightarrow> nat \<Rightarrow> nat \<Rightarrow> node_t list \<Rightarrow> line_t option option" where
  "compute_reg_line ar start fin nodes =
     (let node_count = int fin - int start in
      if node_count = 0 then Some None
      else do {
        s \<leftarrow> sum_nodes ar start fin nodes
               \<lparr>x_sum = 0, y_sum = 0, x2_sum = 0, xy_sum = 0\<rparr>;
        let m_num = reg_m_num ar node_count s;
        let m_denom = reg_denom ar node_count s;
        if m_denom = 0 then Some None
        else do {
          let m = to_float ar (to_double ar (m_num / m_denom));
          let b_num = reg_b_num ar s;
          let b_denom = reg_denom ar node_count s;
          if b_denom = 0 then Some None
          else Some (Some \<lparr>line_m = m,
                            line_b = to_float ar (to_double ar (b_num / b_denom))\<rparr>)
        }
      })"

section \<open>\<^verbatim>\<open>Ransac::compute\<close>\<close>

text \<open>
  One pass of the body of the sampling loop \<^verbatim>\<open>for (int i = 0; i < sample_size; i++)\<close>:
  the neighbour \<open>pick\<close> of the reference node is popped when it is not the reference
  node itself and its angle is trial_inv \<open>sample_deviation\<close>. \<^verbatim>\<open>% size\<close> with \<open>size = 0\<close> is
  undefined. Indices are non-negative, so \<^verbatim>\<open>((ref_index - 1) + size) % size\<close> is
  \<open>(ref_index + sz - 1) mod sz\<close> on natural numbers.
\<close>

definition sample_step ::
  "arith \<Rightarrow> ransac \<Rightarrow> rat \<Rightarrow> nat \<Rightarrow> node_t list \<times> nat \<times> nat \<Rightarrow> (node_t list \<times> nat \<times> nat) option" where
  "sample_step ar this ref_angle i st =
     (case st of (nodes, sz, ref_index) \<Rightarrow>
        if sz = 0 then None
        else
          (let pick = (if i mod 2 = 0 then (ref_index + sz - 1) mod sz
                       else (ref_index + 1) mod sz)
           in if pick \<noteq> ref_index then
                (case node_at nodes pick of
                   None \<Rightarrow> None
                 | Some p \<Rightarrow>
                     if \<bar>to_float ar (angle p - ref_angle)\<bar> \<le> sample_deviation this then
                       (case pop_node pick nodes sz of
                          None \<Rightarrow> None
                        | Some (nodes', sz') \<Rightarrow>
                            Some (nodes', sz',
                                  if pick < ref_index then ref_index - 1 else ref_index))
                     else Some st)
              else Some st))"

function sample_loop ::
  "arith \<Rightarrow> ransac \<Rightarrow> rat \<Rightarrow> nat \<Rightarrow> node_t list \<times> nat \<times> nat \<Rightarrow> (node_t list \<times> nat \<times> nat) option" where
  "sample_loop ar this ref_angle i st =
     (if int i < sample_size this then
        (case sample_step ar this ref_angle i st of
           None \<Rightarrow> None
         | Some st' \<Rightarrow> sample_loop ar this ref_angle (i + 1) st')
      else Some st)"
  by pat_completeness auto
termination
  by (relation "measure (\<lambda>(ar, this, ref_angle, i, st). nat (sample_size this) - i)") auto

declare sample_loop.simps [simp del]

text \<open>
  The test of the association loop: the node is close enough to the line.
\<close>

definition close_to :: "arith \<Rightarrow> ransac \<Rightarrow> line_t \<Rightarrow> node_t \<Rightarrow> bool" where
  "close_to ar this line n \<longleftrightarrow>
     dst2_to_line ar line (node_x n) (node_y n)
       \<le> to_float ar (proximity_epsilon this * proximity_epsilon this)"

text \<open>
  The association loop \<^verbatim>\<open>for (int i = size - 1; i >= 0; i--)\<close>. The counter of the model
  is \<open>i + 1\<close>, the number of indices still to visit: \<open>associate ar this line (Suc i)\<close> visits
  index \<open>i\<close> next, and the loop starts at \<open>associate ar this line sz\<close>.
\<close>

fun associate ::
  "arith \<Rightarrow> ransac \<Rightarrow> line_t \<Rightarrow> nat \<Rightarrow> node_t list \<times> nat \<Rightarrow> (node_t list \<times> nat) option" where
  "associate ar this line 0 st = Some st"
| "associate ar this line (Suc i) st =
     (case st of (nodes, sz) \<Rightarrow>
        (case node_at nodes i of
           None \<Rightarrow> None
         | Some n \<Rightarrow>
             if close_to ar this line n then
               (case pop_node i nodes sz of
                  None \<Rightarrow> None
                | Some st' \<Rightarrow> associate ar this line i st')
             else associate ar this line i st))"

text \<open>
  The body of the \<^verbatim>\<open>while\<close> loop, in three parts. \<open>trial_seed\<close> is lines 91 to 130: the
  reference node is drawn (\<open>r\<close> is the value \<^verbatim>\<open>rand()\<close> returns), its neighbours and the
  node itself are popped, and the raw regression line is computed when at least two nodes
  were popped. A \<open>line_status\<close> of \<open>0\<close> is \<open>Some line\<close>, any other status is \<open>None\<close>.
\<close>

definition trial_seed ::
  "arith \<Rightarrow> ransac \<Rightarrow> nat \<Rightarrow> node_t list \<times> nat
     \<Rightarrow> (node_t list \<times> nat \<times> nat \<times> line_t option) option" where
  "trial_seed ar this r st =
     (case st of (nodes, sz) \<Rightarrow>
        if sz = 0 then None
        else do {
          let original_trial_size = sz;
          let ref_index = r mod sz;
          ref \<leftarrow> node_at nodes ref_index;
          (nodes1, sz1, ref_index1) \<leftarrow>
             sample_loop ar this (angle ref) 0 (nodes, sz, ref_index);
          (nodes2, sz2) \<leftarrow> pop_node ref_index1 nodes1 sz1;
          let sample_start = sz2;
          let sample_end = original_trial_size;
          line_status \<leftarrow>
            (if 2 \<le> int sample_end - int sample_start
             then compute_reg_line ar sample_start sample_end nodes2
             else Some None);
          Some (nodes2, sz2, ref_index1, line_status)
        })"

text \<open>Lines 131 to 143: the other nodes are associated when the raw line was computed.\<close>

definition trial_associate ::
  "arith \<Rightarrow> ransac \<Rightarrow> line_t option \<Rightarrow> node_t list \<times> nat \<Rightarrow> (node_t list \<times> nat) option" where
  "trial_associate ar this line_status st =
     (case line_status of
        Some line \<Rightarrow> associate ar this line (snd st) st
      | None \<Rightarrow> Some st)"

text \<open>
  Lines 144 to 166: the consensus test, the second regression, the \<^verbatim>\<open>push_back\<close> and the
  restoring of a failed trial. The result carries the new \<^verbatim>\<open>reg_lines\<close>.
\<close>

definition trial_confirm ::
  "arith \<Rightarrow> ransac \<Rightarrow> nat \<Rightarrow> nat \<Rightarrow> line_t option \<Rightarrow> line_t list \<Rightarrow> node_t list \<times> nat
     \<Rightarrow> (node_t list \<times> nat \<times> line_t list) option" where
  "trial_confirm ar this original_trial_size ref_index line_status lines st =
     (case st of (nodes, sz) \<Rightarrow> do {
        let popped_nodes = int original_trial_size - int sz;
        line_status' \<leftarrow>
          (if line_consensus this \<le> popped_nodes \<and> line_status \<noteq> None
           then compute_reg_line ar sz original_trial_size nodes
           else Some None);
        let lines' = (case line_status' of Some line \<Rightarrow> lines @ [line] | None \<Rightarrow> lines);
        (nodes', sz') \<leftarrow>
          (case line_status' of
             None \<Rightarrow> restore_trial nodes ref_index original_trial_size sz
           | Some line \<Rightarrow> Some (nodes, sz));
        Some (nodes', sz', lines')
      })"

definition trial ::
  "arith \<Rightarrow> ransac \<Rightarrow> nat \<Rightarrow> node_t list \<times> nat \<times> line_t list
     \<Rightarrow> (node_t list \<times> nat \<times> line_t list) option" where
  "trial ar this r st =
     (case st of (nodes, sz, lines) \<Rightarrow> do {
        (nodes2, sz2, ref_index, line_status) \<leftarrow> trial_seed ar this r (nodes, sz);
        (nodes3, sz3) \<leftarrow> trial_associate ar this line_status (nodes2, sz2);
        trial_confirm ar this sz ref_index line_status lines (nodes3, sz3)
      })"

text \<open>
  The \<^verbatim>\<open>while\<close> loop. \<open>rnd k\<close> is the value of the call of \<^verbatim>\<open>rand()\<close> in trial \<open>k\<close>: the only
  call of a trial. The loop returns the array, the local \<^verbatim>\<open>size\<close>, the lines and the trial
  counter it stops with.
\<close>

function compute_loop ::
  "arith \<Rightarrow> ransac \<Rightarrow> (nat \<Rightarrow> nat) \<Rightarrow> nat \<Rightarrow> node_t list \<times> nat \<times> line_t list
     \<Rightarrow> (node_t list \<times> nat \<times> line_t list \<times> nat) option" where
  "compute_loop ar this rnd trial_count st =
     (case st of (nodes, sz, lines) \<Rightarrow>
        if 0 < sz \<and> int trial_count < max_trials this then
          (case trial ar this (rnd trial_count) st of
             None \<Rightarrow> None
           | Some st' \<Rightarrow> compute_loop ar this rnd (trial_count + 1) st')
        else Some (nodes, sz, lines, trial_count))"
  by pat_completeness auto
termination
  by (relation "measure (\<lambda>(ar, this, rnd, trial_count, st). nat (max_trials this) - trial_count)")
    auto

declare compute_loop.simps [simp del]

text \<open>
  \<open>compute\<close> clears \<^verbatim>\<open>reg_lines\<close>, runs the loop and leaves the lines in the object. It
  returns the array, the object, and (for the statements below) the final values of the
  locals \<^verbatim>\<open>size\<close> and \<^verbatim>\<open>trial_count\<close>.
\<close>

record outcome =
  out_nodes :: "node_t list"
  out_this :: ransac
  out_size :: nat
  out_trials :: nat

definition compute ::
  "arith \<Rightarrow> ransac \<Rightarrow> (nat \<Rightarrow> nat) \<Rightarrow> node_t list \<Rightarrow> nat \<Rightarrow> outcome option" where
  "compute ar this rnd nodes sz =
     (case compute_loop ar this rnd 0 (nodes, sz, []) of
        None \<Rightarrow> None
      | Some (nodes', sz', lines, trial_count) \<Rightarrow>
          Some \<lparr>out_nodes = nodes', out_this = this\<lparr>reg_lines := lines\<rparr>,
                out_size = sz', out_trials = trial_count\<rparr>)"

section \<open>The invariant of a trial\<close>

text \<open>
  \<open>trial_inv osz nodes0 (nodes, sz)\<close> relates the array and size at some point of a trial to the
  array \<open>nodes0\<close> and size \<open>osz\<close> the trial started with: the array has kept its length, the
  active range \<open>[0, sz)\<close> holds nodes of the original active range in their original order,
  the range \<open>[0, osz)\<close> is a permutation of what it was, and nothing from \<open>osz\<close> on has
  changed.
\<close>

definition trial_inv :: "nat \<Rightarrow> node_t list \<Rightarrow> node_t list \<times> nat \<Rightarrow> bool" where
  "trial_inv osz nodes0 st =
     (case st of (nodes, sz) \<Rightarrow>
        length nodes = length nodes0 \<and> sz \<le> osz \<and> osz \<le> length nodes0 \<and>
        subseq (take sz nodes) (take osz nodes0) \<and>
        mset (take osz nodes) = mset (take osz nodes0) \<and>
        drop osz nodes = drop osz nodes0)"

section \<open>The states of the \<^verbatim>\<open>while\<close> loop\<close>

text \<open>
  \<open>loop_head ar this rnd nodes sz k st\<close>: in the call \<open>compute(nodes, sz)\<close>, the \<^verbatim>\<open>while\<close> loop
  tests its condition with \<open>trial_count = k\<close> in state \<open>st\<close> (the array, \<^verbatim>\<open>size\<close> and
  \<^verbatim>\<open>reg_lines\<close>). These are the states every trial starts in, and the state the loop ends
  in.
\<close>

inductive loop_head ::
  "arith \<Rightarrow> ransac \<Rightarrow> (nat \<Rightarrow> nat) \<Rightarrow> node_t list \<Rightarrow> nat \<Rightarrow> nat
     \<Rightarrow> node_t list \<times> nat \<times> line_t list \<Rightarrow> bool"
  for ar this rnd nodes sz where
  first: "loop_head ar this rnd nodes sz 0 (nodes, sz, [])"
| later: "loop_head ar this rnd nodes sz k (nodes1, sz1, lines1) \<Longrightarrow>
          0 < sz1 \<Longrightarrow> int k < max_trials this \<Longrightarrow>
          trial ar this (rnd k) (nodes1, sz1, lines1) = Some st' \<Longrightarrow>
          loop_head ar this rnd nodes sz (Suc k) st'"

section \<open>Sample inputs\<close>

text \<open>
  Concrete inputs on which the theorems below are instantiated: four nodes on the line
  \<open>y = x\<close> and two nodes off it, sorted by angle.
\<close>

definition nd :: "rat \<Rightarrow> node_t" where
  "nd a = \<lparr>node_x = a, node_y = a, angle = a\<rparr>"

definition off4 :: node_t where
  "off4 = \<lparr>node_x = 4, node_y = 0, angle = 4\<rparr>"

definition off5 :: node_t where
  "off5 = \<lparr>node_x = 5, node_y = 9, angle = 5\<rparr>"

definition scan :: "node_t list" where
  "scan = [nd 0, nd 1, nd 2, nd 3, off4, off5]"

text \<open>Three nodes on the line \<open>y = 2 x + 3\<close>.\<close>

definition on_line :: "node_t list" where
  "on_line = [\<lparr>node_x = 0, node_y = 3, angle = 0\<rparr>, \<lparr>node_x = 1, node_y = 5, angle = 1\<rparr>,
              \<lparr>node_x = 2, node_y = 7, angle = 2\<rparr>]"

text \<open>Three more nodes on the line \<open>y = 2 x + 3\<close>, further from the origin.\<close>

definition far_line :: "node_t list" where
  "far_line = [\<lparr>node_x = 5000, node_y = 10003, angle = 0\<rparr>,
               \<lparr>node_x = 5001, node_y = 10005, angle = 1\<rparr>,
               \<lparr>node_x = 5002, node_y = 10007, angle = 2\<rparr>]"

text \<open>
  Two nodes with the same \<open>x\<close>: the binary32 value nearest to \<open>1.1\<close>, which is what the
  literal \<^verbatim>\<open>1.1f\<close> denotes.
\<close>

definition vertical :: "node_t list" where
  "vertical = [\<lparr>node_x = 9227469 / 8388608, node_y = 0, angle = 0\<rparr>,
               \<lparr>node_x = 9227469 / 8388608, node_y = 1, angle = 1\<rparr>]"

definition params :: ransac where
  "params = \<lparr>max_trials = 2, sample_size = 2, sample_deviation = 1,
              proximity_epsilon = 1 / 10, line_consensus = 3,
              reg_lines = [\<lparr>line_m = 7, line_b = 7\<rparr>]\<rparr>"

section \<open>Theorems\<close>

lemma node_at_Some [simp]: "i < length nodes \<Longrightarrow> node_at nodes i = Some (nodes ! i)"
  by (simp add: node_at_def)

lemma node_put_Some [simp]: "i < length nodes \<Longrightarrow> node_put nodes i v = Some (nodes[i := v])"
  by (simp add: node_put_def)

subsection \<open>\<open>pop_node\<close>\<close>

lemma pop_shift_nth:
  "sz \<le> length nodes \<Longrightarrow>
   \<exists>nodes'. pop_shift i sz nodes = Some nodes' \<and> length nodes' = length nodes \<and>
     (\<forall>k<length nodes. nodes' ! k = (if i \<le> k \<and> k + 1 < sz then nodes ! (k + 1) else nodes ! k))"
proof (induction i sz nodes rule: pop_shift.induct)
  case (1 i sz nodes)
  show ?case
  proof (cases "i + 1 < sz")
    case False
    then show ?thesis by (simp add: pop_shift.simps)
  next
    case True
    let ?n1 = "nodes[i := nodes ! (i + 1)]"
    from True "1.prems" have a: "node_at nodes (i + 1) = Some (nodes ! (i + 1))"
      and b: "node_put nodes i (nodes ! (i + 1)) = Some ?n1" by simp_all
    from "1.IH"[OF True a b] "1.prems"
    obtain nodes' where r: "pop_shift (i + 1) sz ?n1 = Some nodes'"
      and l: "length nodes' = length nodes"
      and n: "\<forall>k<length nodes. nodes' ! k =
                (if i + 1 \<le> k \<and> k + 1 < sz then ?n1 ! (k + 1) else ?n1 ! k)"
      by auto
    have "pop_shift i sz nodes = Some nodes'"
      using True a b r by (subst pop_shift.simps) simp
    moreover have "\<forall>k<length nodes. nodes' ! k =
        (if i \<le> k \<and> k + 1 < sz then nodes ! (k + 1) else nodes ! k)"
      using n True "1.prems" by (auto simp: nth_list_update)
    ultimately show ?thesis using l by simp
  qed
qed

lemma pop_node_eq:
  assumes "node < sz" "sz \<le> length nodes"
  shows "pop_node node nodes sz =
     Some (take node nodes @ drop (Suc node) (take sz nodes) @ nodes ! node # drop sz nodes, sz - 1)"
proof -
  from pop_shift_nth[OF assms(2), of node]
  obtain nodes1 where r: "pop_shift node sz nodes = Some nodes1"
      and l: "length nodes1 = length nodes"
      and n: "\<forall>k<length nodes. nodes1 ! k =
                (if node \<le> k \<and> k + 1 < sz then nodes ! (k + 1) else nodes ! k)"
    by blast
  let ?r = "take node nodes @ drop (Suc node) (take sz nodes) @ nodes ! node # drop sz nodes"
  have len: "length ?r = length nodes" using assms by simp
  have "nodes1[sz - 1 := nodes ! node] = ?r"
  proof (rule nth_equalityI)
    show "length (nodes1[sz - 1 := nodes ! node]) = length ?r" using len l by simp
  next
    fix k assume "k < length (nodes1[sz - 1 := nodes ! node])"
    then have k: "k < length nodes" using l by simp
    show "nodes1[sz - 1 := nodes ! node] ! k = ?r ! k"
      using k n l assms
      by (auto simp: nth_list_update nth_append min_def)
  qed
  then show ?thesis using assms r l by (simp add: pop_node_def)
qed

subsection \<open>\<open>restore_trial\<close>: the selection sort\<close>

lemma find_largest_max:
  "i < length nodes \<Longrightarrow> select < length nodes \<Longrightarrow>
   \<exists>s. find_largest nodes j i select = Some s \<and> (s = select \<or> (j \<le> s \<and> s \<le> i)) \<and>
       angle (nodes ! select) \<le> angle (nodes ! s) \<and>
       (\<forall>k. j \<le> k \<and> k \<le> i \<longrightarrow> angle (nodes ! k) \<le> angle (nodes ! s))"
proof (induction nodes j i select rule: find_largest.induct)
  case (1 nodes j i select)
  show ?case
  proof (cases "j \<le> i")
    case False
    then show ?thesis by (simp add: find_largest.simps)
  next
    case True
    let ?sel = "if angle (nodes ! select) < angle (nodes ! j) then j else select"
    from True "1.prems" have a: "node_at nodes j = Some (nodes ! j)"
      and b: "node_at nodes select = Some (nodes ! select)" by simp_all
    have sl: "?sel < length nodes" using True "1.prems" by simp
    from "1.IH"[OF True a b "1.prems"(1) sl]
    obtain s where r: "find_largest nodes (j + 1) i ?sel = Some s"
      and m: "s = ?sel \<or> (j + 1 \<le> s \<and> s \<le> i)"
      and g: "angle (nodes ! ?sel) \<le> angle (nodes ! s)"
      and u: "\<forall>k. j + 1 \<le> k \<and> k \<le> i \<longrightarrow> angle (nodes ! k) \<le> angle (nodes ! s)"
      by blast
    have e: "find_largest nodes j i select = Some s"
      using True a b r by (subst find_largest.simps) simp
    have m': "s = select \<or> (j \<le> s \<and> s \<le> i)"
      using m True by (auto split: if_splits)
    have g': "angle (nodes ! select) \<le> angle (nodes ! s)"
      using g by (auto split: if_splits)
    have gj: "angle (nodes ! j) \<le> angle (nodes ! s)"
      using g by (auto split: if_splits)
    have u': "\<forall>k. j \<le> k \<and> k \<le> i \<longrightarrow> angle (nodes ! k) \<le> angle (nodes ! s)"
    proof (intro allI impI)
      fix k assume "j \<le> k \<and> k \<le> i"
      then have "k = j \<or> (j + 1 \<le> k \<and> k \<le> i)" by auto
      then show "angle (nodes ! k) \<le> angle (nodes ! s)" using gj u by blast
    qed
    show ?thesis using e m' g' u' by blast
  qed
qed

lemma restore_sort_sorted:
  "k < length nodes \<Longrightarrow>
   \<exists>nodes'. restore_sort k nodes = Some nodes' \<and> length nodes' = length nodes \<and>
      mset (take (Suc k) nodes') = mset (take (Suc k) nodes) \<and>
      drop (Suc k) nodes' = drop (Suc k) nodes \<and>
      sorted (map angle (take (Suc k) nodes'))"
proof (induction k arbitrary: nodes)
  case 0
  then show ?case by (cases nodes) (simp_all add: take_Suc)
next
  case (Suc k)
  have z: "0 < length nodes" using Suc.prems by (cases nodes) simp_all
  from find_largest_max[OF Suc.prems z, of 1]
  obtain s where r: "find_largest nodes 1 (Suc k) 0 = Some s"
    and sb: "s \<le> Suc k"
    and g0: "angle (nodes ! 0) \<le> angle (nodes ! s)"
    and u: "\<forall>j. 1 \<le> j \<and> j \<le> Suc k \<longrightarrow> angle (nodes ! j) \<le> angle (nodes ! s)"
    by force
  have mx: "\<forall>j\<le>Suc k. angle (nodes ! j) \<le> angle (nodes ! s)"
  proof (intro allI impI)
    fix j assume "j \<le> Suc k"
    then show "angle (nodes ! j) \<le> angle (nodes ! s)"
      using g0 u by (cases "j = 0") auto
  qed
  let ?n2 = "nodes[Suc k := nodes ! s, s := nodes ! Suc k]"
  have sl: "s < length nodes" using sb Suc.prems by simp
  have step: "restore_sort (Suc k) nodes = restore_sort k ?n2"
    using r sl Suc.prems by simp
  have k2: "k < length ?n2" using Suc.prems by simp
  from Suc.IH[OF k2]
  obtain nodes' where e: "restore_sort k ?n2 = Some nodes'"
    and l: "length nodes' = length ?n2"
    and ms: "mset (take (Suc k) nodes') = mset (take (Suc k) ?n2)"
    and dr: "drop (Suc k) nodes' = drop (Suc k) ?n2"
    and so: "sorted (map angle (take (Suc k) nodes'))"
    by blast
  have tk2: "take (Suc (Suc k)) ?n2 = (take (Suc (Suc k)) nodes)[Suc k := nodes ! s, s := nodes ! Suc k]"
    by (simp add: take_update_swap)
  have ms2: "mset (take (Suc (Suc k)) ?n2) = mset (take (Suc (Suc k)) nodes)"
  proof -
    let ?t = "take (Suc (Suc k)) nodes"
    have "Suc k < length ?t" "s < length ?t" using Suc.prems sb by simp_all
    moreover have "?t ! s = nodes ! s" "?t ! Suc k = nodes ! Suc k" using sb by simp_all
    ultimately have "mset (?t[Suc k := ?t ! s, s := ?t ! Suc k]) = mset ?t"
      by (intro mset_swap)
    then show ?thesis using tk2 \<open>?t ! s = nodes ! s\<close> \<open>?t ! Suc k = nodes ! Suc k\<close> by simp
  qed
  have at: "nodes' ! Suc k = ?n2 ! Suc k"
  proof -
    have "nodes' ! Suc k = hd (drop (Suc k) nodes')"
      using l Suc.prems by (simp add: hd_drop_conv_nth)
    also have "\<dots> = hd (drop (Suc k) ?n2)" using dr by simp
    also have "\<dots> = ?n2 ! Suc k" using Suc.prems by (simp add: hd_drop_conv_nth)
    finally show ?thesis .
  qed
  have top: "?n2 ! Suc k = nodes ! s"
    using Suc.prems sl by (cases "s = Suc k") simp_all
  have tks: "take (Suc (Suc k)) nodes' = take (Suc k) nodes' @ [nodes ! s]"
    using at top l Suc.prems by (simp add: take_Suc_conv_app_nth)
  have tks2: "take (Suc (Suc k)) ?n2 = take (Suc k) ?n2 @ [nodes ! s]"
    using top Suc.prems by (simp add: take_Suc_conv_app_nth)
  have le: "\<forall>n \<in> set (take (Suc k) nodes'). angle n \<le> angle (nodes ! s)"
  proof
    fix n assume "n \<in> set (take (Suc k) nodes')"
    then have "n \<in># mset (take (Suc k) ?n2)" using ms by (metis set_mset_mset)
    then have "n \<in> set (take (Suc (Suc k)) ?n2)" using tks2 by simp
    then have "n \<in> set (take (Suc (Suc k)) nodes)" using ms2 by (metis set_mset_mset)
    then obtain j where "j < Suc (Suc k)" "n = nodes ! j"
      using Suc.prems by (auto simp: in_set_conv_nth)
    then show "angle n \<le> angle (nodes ! s)" using mx by auto
  qed
  have c1: "mset (take (Suc (Suc k)) nodes') = mset (take (Suc (Suc k)) nodes)"
    using tks tks2 ms ms2 by simp
  have c2: "drop (Suc (Suc k)) nodes' = drop (Suc (Suc k)) nodes"
  proof -
    have "drop (Suc (Suc k)) nodes' = drop 1 (drop (Suc k) nodes')" by simp
    also have "\<dots> = drop 1 (drop (Suc k) ?n2)" using dr by simp
    also have "\<dots> = drop (Suc (Suc k)) ?n2" by simp
    also have "\<dots> = drop (Suc (Suc k)) nodes" using sb by simp
    finally show ?thesis .
  qed
  have c3: "sorted (map angle (take (Suc (Suc k)) nodes'))"
    using so le by (simp add: tks sorted_append)
  show ?case using step e l c1 c2 c3 by simp
qed

subsection \<open>\<open>pop_node\<close> and the invariant\<close>

lemma prefix_perm_extend:
  assumes "mset (take sz xs') = mset (take sz xs)" "drop sz xs' = drop sz xs" "sz \<le> osz"
  shows "mset (take osz xs') = mset (take osz xs) \<and> drop osz xs' = drop osz xs"
proof -
  obtain d where d: "osz = sz + d" using assms(3) by (auto simp: le_iff_add)
  have "take osz xs' = take sz xs' @ take d (drop sz xs')"
    and "take osz xs = take sz xs @ take d (drop sz xs)"
    unfolding d by (simp_all add: take_add)
  moreover have "drop osz xs' = drop d (drop sz xs')" and "drop osz xs = drop d (drop sz xs)"
    unfolding d by (simp_all add: add.commute)
  ultimately show ?thesis using assms(1,2) by simp
qed

lemma subseq_remove_nth:
  assumes "i < length xs"
  shows "subseq (take i xs @ drop (Suc i) xs) xs"
proof -
  have "subseq (take i xs @ drop (Suc i) xs) (take i xs @ xs ! i # drop (Suc i) xs)"
    by (simp add: subseq_append' subseq_Cons')
  then show ?thesis using assms by (simp add: id_take_nth_drop[symmetric])
qed

lemma pop_node_props:
  assumes "node < sz" "sz \<le> length nodes"
  shows "\<exists>nodes'. pop_node node nodes sz = Some (nodes', sz - 1) \<and>
           length nodes' = length nodes \<and>
           take (sz - 1) nodes' = take node nodes @ drop (Suc node) (take sz nodes) \<and>
           nodes' ! (sz - 1) = nodes ! node \<and>
           drop sz nodes' = drop sz nodes \<and>
           mset (take sz nodes') = mset (take sz nodes)"
proof -
  define a where "a = take node nodes @ drop (Suc node) (take sz nodes)"
  define v where "v = nodes ! node"
  define rest where "rest = drop sz nodes"
  define r where "r = a @ v # rest"
  have la: "length a = sz - 1" using assms by (auto simp: a_def)
  have sz: "sz = Suc (length a)" using la assms by simp
  have e: "pop_node node nodes sz = Some (r, sz - 1)"
    using pop_node_eq[OF assms] by (simp add: r_def a_def v_def rest_def)
  have t1: "take (sz - 1) r = a" using la by (simp add: r_def)
  have n1: "r ! (sz - 1) = v" using la by (simp add: r_def nth_append)
  have d1: "drop sz r = rest" unfolding sz by (simp add: r_def)
  have t2: "take sz r = a @ [v]" unfolding sz by (simp add: r_def)
  have tk: "take sz nodes
      = take node (take sz nodes) @ take sz nodes ! node # drop (Suc node) (take sz nodes)"
    using assms by (intro id_take_nth_drop) simp
  have "mset (take sz nodes) = mset (a @ [v])"
    using assms by (subst tk) (simp add: min_def a_def v_def)
  then have m1: "mset (take sz r) = mset (take sz nodes)" using t2 by simp
  have l1: "length r = length nodes" using assms la by (simp add: r_def rest_def)
  show ?thesis using e l1 t1 n1 d1 m1 unfolding a_def v_def rest_def by blast
qed

lemma pop_node_inv:
  assumes w: "trial_inv osz nodes0 (nodes, sz)" and n: "node < sz"
  shows "\<exists>nodes'. pop_node node nodes sz = Some (nodes', sz - 1) \<and>
           trial_inv osz nodes0 (nodes', sz - 1) \<and>
           take (sz - 1) nodes' = take node nodes @ drop (Suc node) (take sz nodes) \<and>
           nodes' ! (sz - 1) = nodes ! node \<and> drop sz nodes' = drop sz nodes"
proof -
  from w have l: "length nodes = length nodes0" and so: "sz \<le> osz" and ol: "osz \<le> length nodes0"
    and sb: "subseq (take sz nodes) (take osz nodes0)"
    and ms: "mset (take osz nodes) = mset (take osz nodes0)"
    and dr: "drop osz nodes = drop osz nodes0"
    by (simp_all add: trial_inv_def)
  have sl: "sz \<le> length nodes" using l so ol by simp
  from pop_node_props[OF n sl]
  obtain nodes' where e: "pop_node node nodes sz = Some (nodes', sz - 1)"
    and l': "length nodes' = length nodes"
    and t': "take (sz - 1) nodes' = take node nodes @ drop (Suc node) (take sz nodes)"
    and n': "nodes' ! (sz - 1) = nodes ! node"
    and d': "drop sz nodes' = drop sz nodes"
    and m': "mset (take sz nodes') = mset (take sz nodes)"
    by blast
  have "take node nodes = take node (take sz nodes)" using n by (simp add: min_def)
  then have "subseq (take (sz - 1) nodes') (take sz nodes)"
    using t' subseq_remove_nth[of node "take sz nodes"] n sl by simp
  then have sb': "subseq (take (sz - 1) nodes') (take osz nodes0)"
    using sb by (rule subseq_order.trans)
  from prefix_perm_extend[OF m' d' so]
  have "mset (take osz nodes') = mset (take osz nodes)" "drop osz nodes' = drop osz nodes"
    by simp_all
  then have "trial_inv osz nodes0 (nodes', sz - 1)"
    using l l' so ol sb' ms dr by (simp add: trial_inv_def)
  then show ?thesis using e t' n' d' by blast
qed

subsection \<open>Claims on \<open>pop_node\<close> and \<open>get_x\<close>\<close>

text \<open>
  C7. For an index inside the active range, \<open>pop_node\<close> succeeds and returns the size
  decremented by one; every node after \<open>index\<close> in the active range has moved one slot to
  the left, the removed node is in the last slot of the old active range, the nodes before
  \<open>index\<close> and the nodes from the old size on are where they were, and so the remaining
  active nodes are the old ones without the removed one, in their old order.
\<close>

theorem pop_node_shifts_left:
  assumes "index < sz" and "sz \<le> length nodes"
  shows "\<exists>nodes'. pop_node index nodes sz = Some (nodes', sz - 1) \<and>
           length nodes' = length nodes \<and>
           (\<forall>k. index \<le> k \<and> k < sz - 1 \<longrightarrow> nodes' ! k = nodes ! (k + 1)) \<and>
           nodes' ! (sz - 1) = nodes ! index \<and>
           (\<forall>k. k < index \<longrightarrow> nodes' ! k = nodes ! k) \<and>
           (\<forall>k. sz \<le> k \<and> k < length nodes \<longrightarrow> nodes' ! k = nodes ! k) \<and>
           take (sz - 1) nodes' = take index nodes @ drop (Suc index) (take sz nodes)"
proof -
  from pop_node_props[OF assms]
  obtain nodes' where e: "pop_node index nodes sz = Some (nodes', sz - 1)"
    and l: "length nodes' = length nodes"
    and t: "take (sz - 1) nodes' = take index nodes @ drop (Suc index) (take sz nodes)"
    and n: "nodes' ! (sz - 1) = nodes ! index"
    and d: "drop sz nodes' = drop sz nodes"
    by blast
  have lt: "length (take index nodes) = index" using assms by simp
  have a: "nodes' ! k = nodes ! (k + 1)" if "index \<le> k \<and> k < sz - 1" for k
  proof -
    have "nodes' ! k = take (sz - 1) nodes' ! k" using that by simp
    also have "\<dots> = drop (Suc index) (take sz nodes) ! (k - index)"
      unfolding t using that lt by (simp add: nth_append)
    also have "\<dots> = nodes ! (k + 1)"
    proof -
      from that have "Suc k < sz" and "index + (k - index) = k" by linarith+
      then show ?thesis using assms by simp
    qed
    finally show ?thesis .
  qed
  have b: "nodes' ! k = nodes ! k" if "k < index" for k
  proof -
    have "nodes' ! k = take (sz - 1) nodes' ! k" using that assms by simp
    also have "\<dots> = nodes ! k" unfolding t using that lt by (simp add: nth_append)
    finally show ?thesis .
  qed
  have c: "nodes' ! k = nodes ! k" if "sz \<le> k \<and> k < length nodes" for k
  proof -
    have "nodes' ! k = drop sz nodes' ! (k - sz)" using that l by simp
    also have "\<dots> = nodes ! k" unfolding d using that by simp
    finally show ?thesis .
  qed
  show ?thesis using e l t n a b c by blast
qed

theorem pop_node_shifts_left_witness:
  "(1::nat) < 3 \<and> 3 \<le> length [nd 0, nd 1, nd 2, nd 3] \<and>
   pop_node 1 [nd 0, nd 1, nd 2, nd 3] 3 = Some ([nd 0, nd 2, nd 1, nd 3], 2)"
proof -
  have h1: "(1::nat) < 3" by simp
  have h2: "3 \<le> length [nd 0, nd 1, nd 2, nd 3]" by simp
  from pop_node_shifts_left[OF h1 h2]
  obtain nodes' where e: "pop_node 1 [nd 0, nd 1, nd 2, nd 3] 3 = Some (nodes', 3 - 1)"
    and l: "length nodes' = length [nd 0, nd 1, nd 2, nd 3]"
    and n: "nodes' ! (3 - 1) = [nd 0, nd 1, nd 2, nd 3] ! 1"
    and c: "\<forall>k. 3 \<le> k \<and> k < length [nd 0, nd 1, nd 2, nd 3] \<longrightarrow> nodes' ! k = [nd 0, nd 1, nd 2, nd 3] ! k"
    and t: "take (3 - 1) nodes' = take 1 [nd 0, nd 1, nd 2, nd 3] @ drop (Suc 1) (take 3 [nd 0, nd 1, nd 2, nd 3])"
    by blast
  from c have c3: "nodes' ! 3 = nd 3" by simp
  from l obtain a b c d where nn: "nodes' = [a, b, c, d]"
    by (auto simp: length_Suc_conv eval_nat_numeral)
  from t n c3 have "nodes' = [nd 0, nd 2, nd 1, nd 3]"
    unfolding nn by (simp add: eval_nat_numeral)
  then show ?thesis using e h1 h2 by simp
qed

text \<open>
  C10. \<open>get_x\<close> returns \<open>0\<close> when the slope is \<open>0\<close>, whatever the arithmetic; otherwise it
  returns the \<^verbatim>\<open>float\<close> quotient of the \<^verbatim>\<open>float\<close> difference \<open>y - b\<close> by the slope, which
  in exact arithmetic is \<open>(y - b) / m\<close>.
\<close>

theorem get_x_zero_slope:
  "(line_m l = 0 \<longrightarrow> get_x ar l yv = 0) \<and>
   (line_m l \<noteq> 0 \<longrightarrow>
      get_x ar l yv = to_float ar (to_float ar (yv - line_b l) / line_m l) \<and>
      get_x exact l yv = (yv - line_b l) / line_m l)"
  by (simp add: get_x_def exact_def)

theorem get_x_zero_slope_witness:
  "get_x ieee \<lparr>line_m = 0, line_b = 3\<rparr> 7 = 0 \<and>
   get_x exact \<lparr>line_m = 2, line_b = 3\<rparr> 7 = 2"
  using get_x_zero_slope[of "\<lparr>line_m = 0, line_b = 3\<rparr>" ieee 7]
        get_x_zero_slope[of "\<lparr>line_m = 2, line_b = 3\<rparr>" exact 7]
  by simp

subsection \<open>\<open>restore_trial\<close>, \<open>associate\<close> and \<open>compute_reg_line\<close> return\<close>

lemma restore_trial_sorted:
  assumes "osz \<le> length nodes"
  shows "\<exists>nodes'. restore_trial nodes ri osz sz = Some (nodes', osz) \<and>
           length nodes' = length nodes \<and>
           mset (take osz nodes') = mset (take osz nodes) \<and>
           drop osz nodes' = drop osz nodes \<and>
           sorted (map angle (take osz nodes'))"
proof (cases osz)
  case 0
  then show ?thesis by (simp add: restore_trial_def)
next
  case (Suc k)
  then have "k < length nodes" using assms by simp
  from restore_sort_sorted[OF this] show ?thesis
    unfolding Suc by (auto simp: restore_trial_def)
qed

lemma associate_filter:
  "k \<le> sz \<Longrightarrow> sz \<le> length nodes \<Longrightarrow>
   associate ar this line k (nodes, sz) =
     Some (filter (\<lambda>n. \<not> close_to ar this line n) (take k nodes) @ drop k (take sz nodes)
             @ filter (close_to ar this line) (take k nodes) @ drop sz nodes,
           sz - length (filter (close_to ar this line) (take k nodes)))"
proof (induction k arbitrary: nodes sz)
  case 0
  then show ?case by simp
next
  case (Suc i)
  let ?c = "close_to ar this line"
  have il: "i < length nodes" and isz: "i < sz" using Suc.prems by simp_all
  have na: "node_at nodes i = Some (nodes ! i)" using il by simp
  have ts: "take (Suc i) nodes = take i nodes @ [nodes ! i]"
    using il by (simp add: take_Suc_conv_app_nth)
  show ?case
  proof (cases "?c (nodes ! i)")
    case False
    have dr: "drop i (take sz nodes) = nodes ! i # drop (Suc i) (take sz nodes)"
      using isz il Suc.prems by (simp add: Cons_nth_drop_Suc[symmetric])
    have "associate ar this line (Suc i) (nodes, sz) = associate ar this line i (nodes, sz)"
      using na False by simp
    also have "\<dots> = Some (filter (\<lambda>n. \<not> ?c n) (take i nodes) @ drop i (take sz nodes)
             @ filter ?c (take i nodes) @ drop sz nodes,
           sz - length (filter ?c (take i nodes)))"
      using Suc.IH[of sz nodes] Suc.prems by simp
    finally show ?thesis using False by (simp add: ts dr)
  next
    case True
    define a where "a = take i nodes"
    define b where "b = drop (Suc i) (take sz nodes)"
    define rest where "rest = drop sz nodes"
    define N where "N = a @ b @ nodes ! i # rest"
    have la: "length a = i" using il by (simp add: a_def)
    have lb: "length b = sz - Suc i" using Suc.prems by (simp add: b_def)
    have lab: "length (a @ b) = sz - 1" using la lb isz by simp
    have pn: "pop_node i nodes sz = Some (N, sz - 1)"
      using pop_node_eq[OF isz Suc.prems(2)] by (simp add: N_def a_def b_def rest_def)
    have lN: "sz - 1 \<le> length N" using lab by (simp add: N_def)
    have i1: "i \<le> sz - 1" using isz by simp
    have t1: "take i N = a" using la by (simp add: N_def)
    have "take (length (a @ b)) ((a @ b) @ nodes ! i # rest) = a @ b"
      by (rule append_eq_conv_conj[THEN iffD1, THEN conjunct1, OF refl, symmetric])
    then have t2: "take (sz - 1) N = a @ b" unfolding lab by (simp add: N_def)
    have "drop (length (a @ b)) ((a @ b) @ nodes ! i # rest) = nodes ! i # rest"
      by (rule append_eq_conv_conj[THEN iffD1, THEN conjunct2, OF refl, symmetric])
    then have d2: "drop (sz - 1) N = nodes ! i # rest" unfolding lab by (simp add: N_def)
    have d1: "drop i (a @ b) = b" using la by simp
    have "associate ar this line (Suc i) (nodes, sz) = associate ar this line i (N, sz - 1)"
      using na True pn by simp
    also have "\<dots> = Some (filter (\<lambda>n. \<not> ?c n) (take i N) @ drop i (take (sz - 1) N)
             @ filter ?c (take i N) @ drop (sz - 1) N,
           sz - 1 - length (filter ?c (take i N)))"
      using Suc.IH[OF i1 lN] .
    finally have "associate ar this line (Suc i) (nodes, sz) =
        Some (filter (\<lambda>n. \<not> ?c n) a @ b @ filter ?c a @ nodes ! i # rest,
              sz - 1 - length (filter ?c a))"
      unfolding t1 t2 d2 d1 .
    then show ?thesis using True by (simp add: ts a_def b_def rest_def)
  qed
qed

lemma sum_nodes_total:
  "fin \<le> length nodes \<Longrightarrow> \<exists>s'. sum_nodes ar i fin nodes s = Some s'"
proof (induction ar i fin nodes s rule: sum_nodes.induct)
  case (1 ar i fin nodes s)
  show ?case
  proof (cases "i < fin")
    case False
    then show ?thesis by (simp add: sum_nodes.simps)
  next
    case True
    then have a: "node_at nodes i = Some (nodes ! i)" using "1.prems" by simp
    from "1.IH"[OF True a "1.prems"] show ?thesis
      using True a by (subst sum_nodes.simps) simp
  qed
qed

lemma compute_reg_line_total:
  assumes "fin \<le> length nodes"
  shows "\<exists>res. compute_reg_line ar start fin nodes = Some res"
proof -
  from sum_nodes_total[OF assms]
  obtain s where "sum_nodes ar start fin nodes
      \<lparr>x_sum = 0, y_sum = 0, x2_sum = 0, xy_sum = 0\<rparr> = Some s" by blast
  then show ?thesis by (simp add: compute_reg_line_def Let_def)
qed

subsection \<open>The invariant through the loops of a trial\<close>

lemma trial_inv_refl: "sz \<le> length nodes \<Longrightarrow> trial_inv sz nodes (nodes, sz)"
  by (simp add: trial_inv_def)

lemma trial_inv_trans:
  assumes a: "trial_inv osz nodes0 (nodes1, sz1)" and b: "trial_inv sz1 nodes1 (nodes2, sz2)"
  shows "trial_inv osz nodes0 (nodes2, sz2)"
proof -
  from a have l1: "length nodes1 = length nodes0" and s1: "sz1 \<le> osz"
    and ol: "osz \<le> length nodes0"
    and sb1: "subseq (take sz1 nodes1) (take osz nodes0)"
    and ms1: "mset (take osz nodes1) = mset (take osz nodes0)"
    and dr1: "drop osz nodes1 = drop osz nodes0"
    by (simp_all add: trial_inv_def)
  from b have l2: "length nodes2 = length nodes1" and s2: "sz2 \<le> sz1"
    and sb2: "subseq (take sz2 nodes2) (take sz1 nodes1)"
    and ms2: "mset (take sz1 nodes2) = mset (take sz1 nodes1)"
    and dr2: "drop sz1 nodes2 = drop sz1 nodes1"
    by (simp_all add: trial_inv_def)
  from prefix_perm_extend[OF ms2 dr2 s1]
  have "mset (take osz nodes2) = mset (take osz nodes1)" "drop osz nodes2 = drop osz nodes1"
    by simp_all
  moreover have "subseq (take sz2 nodes2) (take osz nodes0)"
    using sb2 sb1 by (rule subseq_order.trans)
  ultimately show ?thesis using l1 l2 s1 s2 ol ms1 dr1 by (simp add: trial_inv_def)
qed

lemma subseq_sorted_wrt:
  "subseq xs ys \<Longrightarrow> sorted_wrt R ys \<Longrightarrow> sorted_wrt R xs"
proof (induction rule: list_emb.induct)
  case (list_emb_Nil ys)
  then show ?case by simp
next
  case (list_emb_Cons xs ys y)
  then show ?case by simp
next
  case (list_emb_Cons2 x y xs ys)
  then have "set xs \<subseteq> set ys" by (auto dest: list_emb_set)
  with list_emb_Cons2 show ?case by auto
qed

lemma trial_inv_sorted:
  assumes "trial_inv osz nodes0 (nodes, sz)" "sorted (map angle (take osz nodes0))"
  shows "sorted (map angle (take sz nodes))"
proof -
  from assms(1) have "subseq (take sz nodes) (take osz nodes0)" by (simp add: trial_inv_def)
  then have "subseq (map angle (take sz nodes)) (map angle (take osz nodes0))"
    by (rule subseq_map)
  then show ?thesis using assms(2) by (rule subseq_sorted_wrt)
qed

lemma associate_inv:
  assumes w: "trial_inv osz nodes0 (nodes, sz)"
  shows "\<exists>nodes' sz'. associate ar this line sz (nodes, sz) = Some (nodes', sz') \<and>
           trial_inv osz nodes0 (nodes', sz') \<and>
           take sz' nodes' = filter (\<lambda>n. \<not> close_to ar this line n) (take sz nodes)"
proof -
  let ?c = "close_to ar this line"
  define keep where "keep = filter (\<lambda>n. \<not> ?c n) (take sz nodes)"
  define gone where "gone = filter ?c (take sz nodes)"
  define N where "N = keep @ gone @ drop sz nodes"
  from w have sl: "sz \<le> length nodes" by (simp add: trial_inv_def)
  have lk: "length keep + length gone = sz"
    using sum_length_filter_compl[of ?c "take sz nodes"] sl
    by (simp add: keep_def gone_def add.commute)
  then have sk: "sz - length gone = length keep" by simp
  have e: "associate ar this line sz (nodes, sz) = Some (N, length keep)"
    using associate_filter[OF le_refl sl, of ar this line] sk
    by (simp add: N_def keep_def gone_def)
  have tk: "take (length keep) N = keep" by (simp add: N_def)
  have "take (length (keep @ gone)) ((keep @ gone) @ drop sz nodes) = keep @ gone"
    by (rule append_eq_conv_conj[THEN iffD1, THEN conjunct1, OF refl, symmetric])
  then have ts: "take sz N = keep @ gone" using lk by (simp add: N_def)
  have "drop (length (keep @ gone)) ((keep @ gone) @ drop sz nodes) = drop sz nodes"
    by (rule append_eq_conv_conj[THEN iffD1, THEN conjunct2, OF refl, symmetric])
  then have ds: "drop sz N = drop sz nodes" using lk by (simp add: N_def)
  have ms: "mset (take sz N) = mset (take sz nodes)"
    unfolding ts by (simp add: keep_def gone_def add.commute)
  have lN: "length N = length nodes" using lk sl by (simp add: N_def)
  have "subseq (take (length keep) N) (take sz nodes)"
    unfolding tk by (simp add: keep_def)
  moreover have "length keep \<le> sz" using lk by simp
  ultimately have "trial_inv sz nodes (N, length keep)"
    using lN sl ms ds by (simp add: trial_inv_def)
  with w have "trial_inv osz nodes0 (N, length keep)" by (rule trial_inv_trans)
  then show ?thesis using e tk by (auto simp: keep_def)
qed

lemma sample_step_inv:
  assumes w: "trial_inv osz nodes0 (nodes, sz)" and r: "ref_index < sz"
  shows "\<exists>nodes' sz' ref_index'.
           sample_step ar this ref_angle i (nodes, sz, ref_index) = Some (nodes', sz', ref_index') \<and>
           trial_inv osz nodes0 (nodes', sz') \<and> ref_index' < sz'"
proof -
  define pick where
    "pick = (if i mod 2 = 0 then (ref_index + sz - 1) mod sz else (ref_index + 1) mod sz)"
  from r have z: "sz \<noteq> 0" by simp
  then have ps: "pick < sz" by (simp add: pick_def)
  from w have sl: "sz \<le> length nodes" by (simp add: trial_inv_def)
  have na: "node_at nodes pick = Some (nodes ! pick)" using ps sl by simp
  show ?thesis
  proof (cases "pick \<noteq> ref_index \<and>
      \<bar>to_float ar (angle (nodes ! pick) - ref_angle)\<bar> \<le> sample_deviation this")
    case False
    then have "sample_step ar this ref_angle i (nodes, sz, ref_index) = Some (nodes, sz, ref_index)"
      using z na by (auto simp: sample_step_def Let_def pick_def[symmetric])
    then show ?thesis using w r by blast
  next
    case True
    from pop_node_inv[OF w ps]
    obtain nodes' where e: "pop_node pick nodes sz = Some (nodes', sz - 1)"
      and w': "trial_inv osz nodes0 (nodes', sz - 1)" by blast
    let ?r' = "if pick < ref_index then ref_index - 1 else ref_index"
    have "sample_step ar this ref_angle i (nodes, sz, ref_index) = Some (nodes', sz - 1, ?r')"
      using z na True e by (simp add: sample_step_def Let_def pick_def[symmetric])
    moreover have "?r' < sz - 1" using True ps r by auto
    ultimately show ?thesis using w' by blast
  qed
qed

lemma sample_loop_inv:
  "trial_inv osz nodes0 (nodes, sz) \<Longrightarrow> ref_index < sz \<Longrightarrow>
   \<exists>nodes' sz' ref_index'.
      sample_loop ar this ref_angle i (nodes, sz, ref_index) = Some (nodes', sz', ref_index') \<and>
      trial_inv osz nodes0 (nodes', sz') \<and> ref_index' < sz'"
proof (induction ar "this" ref_angle i "(nodes, sz, ref_index)"
    arbitrary: nodes sz ref_index rule: sample_loop.induct)
  case (1 ar this ref_angle i)
  show ?case
  proof (cases "int i < sample_size this")
    case False
    then show ?thesis using "1.prems" by (simp add: sample_loop.simps)
  next
    case True
    from sample_step_inv[OF "1.prems"]
    obtain nodes1 sz1 ri1 where
      e: "sample_step ar this ref_angle i (nodes, sz, ref_index) = Some (nodes1, sz1, ri1)"
      and w1: "trial_inv osz nodes0 (nodes1, sz1)" and r1: "ri1 < sz1" by blast
    from "1.hyps"[OF True e w1 r1]
    obtain nodes' sz' ri' where
      "sample_loop ar this ref_angle (i + 1) (nodes1, sz1, ri1) = Some (nodes', sz', ri')"
      "trial_inv osz nodes0 (nodes', sz')" "ri' < sz'" by blast
    then show ?thesis using True e by (subst sample_loop.simps) simp
  qed
qed

subsection \<open>One trial\<close>

lemma trial_seed_inv:
  assumes "0 < sz" "sz \<le> length nodes"
  shows "\<exists>nodes2 sz2 ri seed.
           trial_seed ar this r (nodes, sz) = Some (nodes2, sz2, ri, seed) \<and>
           trial_inv sz nodes (nodes2, sz2) \<and> sz2 < sz \<and>
           (if 2 \<le> int sz - int sz2 then compute_reg_line ar sz2 sz nodes2 else Some None)
             = Some seed"
proof -
  have w: "trial_inv sz nodes (nodes, sz)" using assms(2) by (rule trial_inv_refl)
  have rs: "r mod sz < sz" using assms(1) by simp
  then have na: "node_at nodes (r mod sz) = Some (nodes ! (r mod sz))" using assms(2) by simp
  from sample_loop_inv[OF w rs]
  obtain nodes1 sz1 ri1 where
    e1: "sample_loop ar this (angle (nodes ! (r mod sz))) 0 (nodes, sz, r mod sz)
           = Some (nodes1, sz1, ri1)"
    and w1: "trial_inv sz nodes (nodes1, sz1)" and r1: "ri1 < sz1" by blast
  from pop_node_inv[OF w1 r1]
  obtain nodes2 where e2: "pop_node ri1 nodes1 sz1 = Some (nodes2, sz1 - 1)"
    and w2: "trial_inv sz nodes (nodes2, sz1 - 1)" by blast
  from w1 have "sz1 \<le> sz" by (simp add: trial_inv_def)
  then have lt: "sz1 - 1 < sz" using r1 by simp
  from w2 have "sz \<le> length nodes2" by (simp add: trial_inv_def)
  from compute_reg_line_total[OF this]
  obtain res where e3: "compute_reg_line ar (sz1 - 1) sz nodes2 = Some res" by blast
  define seed where "seed = (if 2 \<le> int sz - int (sz1 - 1) then res else None)"
  have st: "(if 2 \<le> int sz - int (sz1 - 1)
             then compute_reg_line ar (sz1 - 1) sz nodes2 else Some None) = Some seed"
    using e3 by (simp add: seed_def)
  have "trial_seed ar this r (nodes, sz) = Some (nodes2, sz1 - 1, ri1, seed)"
    using assms(1) na e1 e2 e3 by (simp add: trial_seed_def seed_def)
  then show ?thesis using w2 lt st by blast
qed

lemma trial_associate_inv:
  assumes "trial_inv osz nodes0 (nodes, sz)"
  shows "\<exists>nodes' sz'. trial_associate ar this seed (nodes, sz) = Some (nodes', sz') \<and>
           trial_inv osz nodes0 (nodes', sz') \<and> sz' \<le> sz"
proof (cases seed)
  case None
  then show ?thesis using assms by (simp add: trial_associate_def)
next
  case (Some line)
  from associate_inv[OF assms, of ar this line]
  obtain nodes' sz' where e: "associate ar this line sz (nodes, sz) = Some (nodes', sz')"
    and w: "trial_inv osz nodes0 (nodes', sz')"
    and t: "take sz' nodes' = filter (\<lambda>n. \<not> close_to ar this line n) (take sz nodes)"
    by blast
  from w have "sz' \<le> length nodes'" by (simp add: trial_inv_def)
  then have "sz' = length (take sz' nodes')" by simp
  also have "\<dots> \<le> length (take sz nodes)" unfolding t by (rule length_filter_le)
  also have "\<dots> \<le> sz" by simp
  finally have "sz' \<le> sz" .
  then show ?thesis using Some e w by (simp add: trial_associate_def)
qed

lemma trial_confirm_cases:
  assumes w: "trial_inv osz nodes0 (nodes, sz)"
  shows "\<exists>refit nodes' sz' lines'.
           compute_reg_line ar sz osz nodes = Some refit \<and>
           trial_confirm ar this osz ri seed lines (nodes, sz) = Some (nodes', sz', lines') \<and>
           (seed \<noteq> None \<and> line_consensus this \<le> int osz - int sz \<and> refit \<noteq> None
              \<longrightarrow> (\<exists>l. refit = Some l \<and> lines' = lines @ [l]) \<and> nodes' = nodes \<and> sz' = sz) \<and>
           (\<not> (seed \<noteq> None \<and> line_consensus this \<le> int osz - int sz \<and> refit \<noteq> None)
              \<longrightarrow> lines' = lines \<and> restore_trial nodes ri osz sz = Some (nodes', sz') \<and>
                 sz' = osz \<and> sorted (map angle (take osz nodes'))) \<and>
           length nodes' = length nodes0 \<and>
           mset (take osz nodes') = mset (take osz nodes0) \<and>
           drop osz nodes' = drop osz nodes0"
proof -
  from w have l: "length nodes = length nodes0" and ol: "osz \<le> length nodes0"
    and ms: "mset (take osz nodes) = mset (take osz nodes0)"
    and dr: "drop osz nodes = drop osz nodes0"
    by (simp_all add: trial_inv_def)
  have on: "osz \<le> length nodes" using l ol by simp
  from compute_reg_line_total[OF on]
  obtain refit where e: "compute_reg_line ar sz osz nodes = Some refit" by blast
  from restore_trial_sorted[OF on]
  obtain nodesr where er: "restore_trial nodes ri osz sz = Some (nodesr, osz)"
    and lr: "length nodesr = length nodes"
    and mr: "mset (take osz nodesr) = mset (take osz nodes)"
    and dr': "drop osz nodesr = drop osz nodes"
    and sr: "sorted (map angle (take osz nodesr))" by blast
  show ?thesis
  proof (cases "seed \<noteq> None \<and> line_consensus this \<le> int osz - int sz \<and> refit \<noteq> None")
    case True
    then obtain ln where ln: "refit = Some ln" by auto
    have "trial_confirm ar this osz ri seed lines (nodes, sz) = Some (nodes, sz, lines @ [ln])"
      using True e ln by (simp add: trial_confirm_def)
    then show ?thesis using True e ln l ms dr by simp
  next
    case False
    have "trial_confirm ar this osz ri seed lines (nodes, sz) = Some (nodesr, osz, lines)"
    proof (cases "line_consensus this \<le> int osz - int sz \<and> seed \<noteq> None")
      case True
      with False have "refit = None" by auto
      then show ?thesis using True e er by (simp add: trial_confirm_def)
    next
      case False
      then show ?thesis using er by (cases seed) (auto simp: trial_confirm_def)
    qed
    then show ?thesis using False e er lr mr dr' sr l ms dr by simp
  qed
qed

lemma trial_steps:
  assumes "0 < sz" "sz \<le> length nodes"
  shows "\<exists>nodes2 sz2 ri seed nodes3 sz3 refit nodes' sz' lines'.
     trial_seed ar this r (nodes, sz) = Some (nodes2, sz2, ri, seed) \<and>
     (if 2 \<le> int sz - int sz2 then compute_reg_line ar sz2 sz nodes2 else Some None)
       = Some seed \<and>
     trial_associate ar this seed (nodes2, sz2) = Some (nodes3, sz3) \<and>
     compute_reg_line ar sz3 sz nodes3 = Some refit \<and>
     trial ar this r (nodes, sz, lines) = Some (nodes', sz', lines') \<and>
     trial_inv sz nodes (nodes3, sz3) \<and> sz3 < sz \<and>
     (seed \<noteq> None \<and> line_consensus this \<le> int sz - int sz3 \<and> refit \<noteq> None
        \<longrightarrow> (\<exists>l. refit = Some l \<and> lines' = lines @ [l]) \<and> nodes' = nodes3 \<and> sz' = sz3) \<and>
     (\<not> (seed \<noteq> None \<and> line_consensus this \<le> int sz - int sz3 \<and> refit \<noteq> None)
        \<longrightarrow> lines' = lines \<and> restore_trial nodes3 ri sz sz3 = Some (nodes', sz') \<and>
           sz' = sz \<and> sorted (map angle (take sz nodes'))) \<and>
     length nodes' = length nodes \<and>
     mset (take sz nodes') = mset (take sz nodes) \<and>
     drop sz nodes' = drop sz nodes"
proof -
  from trial_seed_inv[OF assms]
  obtain nodes2 sz2 ri seed where
    e1: "trial_seed ar this r (nodes, sz) = Some (nodes2, sz2, ri, seed)"
    and w2: "trial_inv sz nodes (nodes2, sz2)" and l2: "sz2 < sz"
    and e0: "(if 2 \<le> int sz - int sz2 then compute_reg_line ar sz2 sz nodes2 else Some None)
               = Some seed"
    by blast
  from trial_associate_inv[OF w2]
  obtain nodes3 sz3 where
    e2: "trial_associate ar this seed (nodes2, sz2) = Some (nodes3, sz3)"
    and w3: "trial_inv sz nodes (nodes3, sz3)" and l3: "sz3 \<le> sz2" by blast
  from trial_confirm_cases[OF w3, of ar this ri seed lines]
  obtain refit nodes' sz' lines' where
    e3: "compute_reg_line ar sz3 sz nodes3 = Some refit"
    and e4: "trial_confirm ar this sz ri seed lines (nodes3, sz3) = Some (nodes', sz', lines')"
    and c: "seed \<noteq> None \<and> line_consensus this \<le> int sz - int sz3 \<and> refit \<noteq> None
              \<longrightarrow> (\<exists>l. refit = Some l \<and> lines' = lines @ [l]) \<and> nodes' = nodes3 \<and> sz' = sz3"
           "\<not> (seed \<noteq> None \<and> line_consensus this \<le> int sz - int sz3 \<and> refit \<noteq> None)
              \<longrightarrow> lines' = lines \<and> restore_trial nodes3 ri sz sz3 = Some (nodes', sz') \<and>
                 sz' = sz \<and> sorted (map angle (take sz nodes'))"
    and r: "length nodes' = length nodes" "mset (take sz nodes') = mset (take sz nodes)"
           "drop sz nodes' = drop sz nodes"
    by blast
  have e5: "trial ar this r (nodes, sz, lines) = Some (nodes', sz', lines')"
    using e1 e2 e4 by (simp add: trial_def)
  have "sz3 < sz" using l2 l3 by simp
  then show ?thesis using e1 e0 e2 e3 e5 w3 c r by blast
qed

subsection \<open>The loop of \<open>compute\<close>\<close>

lemma trial_keeps:
  assumes "0 < sz1" "sz1 \<le> sz" "sz \<le> length nodes1"
    and t: "trial ar this r (nodes1, sz1, lines1) = Some (nodes2, sz2, lines2)"
  shows "length nodes2 = length nodes1 \<and> sz2 \<le> sz1 \<and>
         mset (take sz nodes2) = mset (take sz nodes1) \<and>
         drop sz nodes2 = drop sz nodes1 \<and>
         (sorted (map angle (take sz1 nodes1)) \<longrightarrow> sorted (map angle (take sz2 nodes2))) \<and>
         length lines2 \<le> Suc (length lines1)"
proof -
  have sl: "sz1 \<le> length nodes1" using assms by simp
  from trial_steps[OF assms(1) sl, of ar this r lines1]
  obtain seed nodes3 sz3 refit ri nodes' sz' lines' where
    t': "trial ar this r (nodes1, sz1, lines1) = Some (nodes', sz', lines')"
    and w3: "trial_inv sz1 nodes1 (nodes3, sz3)" and l3: "sz3 < sz1"
    and c1': "seed \<noteq> None \<and> line_consensus this \<le> int sz1 - int sz3 \<and> refit \<noteq> None
      \<longrightarrow> (\<exists>l. refit = Some l \<and> lines' = lines1 @ [l]) \<and> nodes' = nodes3 \<and> sz' = sz3"
    and c2': "\<not> (seed \<noteq> None \<and> line_consensus this \<le> int sz1 - int sz3 \<and> refit \<noteq> None)
      \<longrightarrow> lines' = lines1 \<and> restore_trial nodes3 ri sz1 sz3 = Some (nodes', sz') \<and>
           sz' = sz1 \<and> sorted (map angle (take sz1 nodes'))"
    and l': "length nodes' = length nodes1"
    and m': "mset (take sz1 nodes') = mset (take sz1 nodes1)"
    and d': "drop sz1 nodes' = drop sz1 nodes1"
    by blast
  from t t' have eq: "nodes' = nodes2" "sz' = sz2" "lines' = lines2" by simp_all
  note c1 = c1'[unfolded eq] and c2 = c2'[unfolded eq] and l = l'[unfolded eq] and m = m'[unfolded eq] and d = d'[unfolded eq]
  from prefix_perm_extend[OF m d assms(2)]
  have p: "mset (take sz nodes2) = mset (take sz nodes1)" "drop sz nodes2 = drop sz nodes1"
    by simp_all
  have s: "sz2 \<le> sz1" using c1 c2 l3 by fastforce
  have ll: "length lines2 \<le> Suc (length lines1)" using c1 c2 by fastforce
  have so: "sorted (map angle (take sz2 nodes2))" if "sorted (map angle (take sz1 nodes1))"
  proof (cases "seed \<noteq> None \<and> line_consensus this \<le> int sz1 - int sz3 \<and> refit \<noteq> None")
    case True
    with c1 have "nodes2 = nodes3" "sz2 = sz3" by blast+
    then show ?thesis using trial_inv_sorted[OF w3 that] by simp
  next
    case False
    with c2 show ?thesis by blast
  qed
  show ?thesis using l s p so ll by blast
qed

lemma loop_head_inv:
  assumes "loop_head ar this rnd nodes sz k st" "sz \<le> length nodes"
  shows "length (fst st) = length nodes \<and> fst (snd st) \<le> sz \<and>
         mset (take sz (fst st)) = mset (take sz nodes) \<and>
         drop sz (fst st) = drop sz nodes \<and>
         (sorted (map angle (take sz nodes))
            \<longrightarrow> sorted (map angle (take (fst (snd st)) (fst st)))) \<and>
         length (snd (snd st)) \<le> k \<and> int k \<le> max 0 (max_trials this)"
  using assms
proof (induction rule: loop_head.induct)
  case first
  then show ?case by simp
next
  case (later k nodes1 sz1 lines1 st')
  obtain nodes2 sz2 lines2 where st': "st' = (nodes2, sz2, lines2)" by (cases st') auto
  from later.IH[OF later.prems] have
    l1: "length nodes1 = length nodes" and s1: "sz1 \<le> sz"
    and m1: "mset (take sz nodes1) = mset (take sz nodes)"
    and d1: "drop sz nodes1 = drop sz nodes"
    and so1: "sorted (map angle (take sz nodes)) \<longrightarrow> sorted (map angle (take sz1 nodes1))"
    and ll1: "length lines1 \<le> k"
    by simp_all
  have sl: "sz \<le> length nodes1" using l1 later.prems by simp
  from trial_keeps[OF later.hyps(2) s1 sl later.hyps(4)[unfolded st']]
  have "length nodes2 = length nodes1" "sz2 \<le> sz1"
    "mset (take sz nodes2) = mset (take sz nodes1)" "drop sz nodes2 = drop sz nodes1"
    "sorted (map angle (take sz1 nodes1)) \<longrightarrow> sorted (map angle (take sz2 nodes2))"
    "length lines2 \<le> Suc (length lines1)"
    by simp_all
  then show ?case using l1 s1 m1 d1 so1 ll1 later.hyps(3) by (simp add: st')
qed

lemma compute_loop_reaches:
  "loop_head ar this rnd nodes sz k st \<Longrightarrow> sz \<le> length nodes \<Longrightarrow>
   \<exists>nodes' sz' lines' tc.
      compute_loop ar this rnd k st = Some (nodes', sz', lines', tc) \<and>
      loop_head ar this rnd nodes sz tc (nodes', sz', lines') \<and>
      \<not> (0 < sz' \<and> int tc < max_trials this) \<and> k \<le> tc"
proof (induction ar "this" rnd k st rule: compute_loop.induct)
  case (1 ar this rnd trial_count st)
  obtain nodes1 sz1 lines1 where st: "st = (nodes1, sz1, lines1)" by (cases st) auto
  show ?case
  proof (cases "0 < sz1 \<and> int trial_count < max_trials this")
    case False
    have "compute_loop ar this rnd trial_count st = Some (nodes1, sz1, lines1, trial_count)"
      using False by (subst compute_loop.simps) (auto simp: st)
    then show ?thesis using False "1.prems"(1) st by auto
  next
    case True
    from loop_head_inv[OF "1.prems"] have "length nodes1 = length nodes" "sz1 \<le> sz"
      by (simp_all add: st)
    then have sl: "sz1 \<le> length nodes1" using "1.prems"(2) by simp
    from True have z: "0 < sz1" by simp
    from trial_steps[OF z sl, of ar this "rnd trial_count" lines1]
    obtain st' where t: "trial ar this (rnd trial_count) st = Some st'"
      unfolding st by blast
    have "loop_head ar this rnd nodes sz (Suc trial_count) st'"
      using "1.prems"(1) True t unfolding st
      by (intro loop_head.later[of _ _ _ _ _ _ nodes1 sz1 lines1]) simp_all
    then have h: "loop_head ar this rnd nodes sz (trial_count + 1) st'" by simp
    have u: "compute_loop ar this rnd trial_count st = compute_loop ar this rnd (trial_count + 1) st'"
      using True t by (subst compute_loop.simps) (simp add: st)
    from "1.IH"[of nodes1 "(sz1, lines1)" sz1 lines1 st', OF st[symmetric] refl True t h "1.prems"(2)]
    obtain nodes' sz' lines' tc where
      "compute_loop ar this rnd (trial_count + 1) st' = Some (nodes', sz', lines', tc)"
      "loop_head ar this rnd nodes sz tc (nodes', sz', lines')"
      "\<not> (0 < sz' \<and> int tc < max_trials this)" "trial_count + 1 \<le> tc"
      by auto
    then show ?thesis using u by auto
  qed
qed

lemma compute_returns:
  assumes "sz \<le> length nodes"
  shows "\<exists>out. compute ar this rnd nodes sz = Some out \<and>
           loop_head ar this rnd nodes sz (out_trials out)
             (out_nodes out, out_size out, reg_lines (out_this out)) \<and>
           \<not> (0 < out_size out \<and> int (out_trials out) < max_trials this) \<and>
           out_this out = this\<lparr>reg_lines := reg_lines (out_this out)\<rparr>"
proof -
  from compute_loop_reaches[OF loop_head.first assms, of ar this rnd]
  obtain nodes' sz' lines' tc where
    "compute_loop ar this rnd 0 (nodes, sz, []) = Some (nodes', sz', lines', tc)"
    "loop_head ar this rnd nodes sz tc (nodes', sz', lines')"
    "\<not> (0 < sz' \<and> int tc < max_trials this)"
    by blast
  then show ?thesis by (simp add: compute_def)
qed

subsection \<open>Claims on \<open>compute\<close>\<close>

lemma mset_take_drop:
  assumes "mset (take n xs) = mset (take n ys)" "drop n xs = drop n ys"
  shows "mset xs = mset ys"
proof -
  have "mset (take n xs @ drop n xs) = mset (take n ys @ drop n ys)"
    using assms by (simp only: mset_append)
  then show ?thesis by (simp only: append_take_drop_id)
qed


text \<open>
  C1. For a call \<open>compute(nodes, sz)\<close> on an array that holds at least \<open>sz\<close> nodes:
  \<open>compute\<close> returns, the array has kept its length, its first \<open>sz\<close> nodes are a
  permutation of the first \<open>sz\<close> nodes of the input and the nodes from \<open>sz\<close> on are
  untouched; the same holds of the array in every state the loop passes through, that is
  after every trial, whatever its outcome. \<open>pop_node\<close> (inside the active range) and
  \<open>restore_trial\<close> each return a permutation of the array.
\<close>

theorem compute_permutes_nodes:
  assumes "sz \<le> length nodes"
  shows "(\<exists>out. compute ar this rnd nodes sz = Some out \<and>
            length (out_nodes out) = length nodes \<and>
            mset (take sz (out_nodes out)) = mset (take sz nodes) \<and>
            drop sz (out_nodes out) = drop sz nodes) \<and>
         (\<forall>k nodes' sz' lines'.
            loop_head ar this rnd nodes sz k (nodes', sz', lines') \<longrightarrow>
              mset (take sz nodes') = mset (take sz nodes) \<and> drop sz nodes' = drop sz nodes) \<and>
         (\<forall>i. i < sz \<longrightarrow>
            (\<exists>nodes'. pop_node i nodes sz = Some (nodes', sz - 1) \<and> mset nodes' = mset nodes)) \<and>
         (\<exists>nodes'. restore_trial nodes ri sz sz0 = Some (nodes', sz) \<and> mset nodes' = mset nodes)"
proof (intro conjI allI impI)
  from compute_returns[OF assms, of ar this rnd]
  obtain out where e: "compute ar this rnd nodes sz = Some out"
    and h: "loop_head ar this rnd nodes sz (out_trials out)
             (out_nodes out, out_size out, reg_lines (out_this out))" by blast
  from loop_head_inv[OF h assms] e
  show "\<exists>out. compute ar this rnd nodes sz = Some out \<and>
            length (out_nodes out) = length nodes \<and>
            mset (take sz (out_nodes out)) = mset (take sz nodes) \<and>
            drop sz (out_nodes out) = drop sz nodes" by simp
next
  fix k nodes' sz' lines'
  assume "loop_head ar this rnd nodes sz k (nodes', sz', lines')"
  from loop_head_inv[OF this assms]
  show "mset (take sz nodes') = mset (take sz nodes)" and "drop sz nodes' = drop sz nodes"
    by simp_all
next
  fix i assume "i < sz"
  from pop_node_props[OF this assms]
  obtain nodes' where e: "pop_node i nodes sz = Some (nodes', sz - 1)"
    and d: "drop sz nodes' = drop sz nodes" and m: "mset (take sz nodes') = mset (take sz nodes)"
    by blast
  from m d have "mset nodes' = mset nodes" by (rule mset_take_drop)
  then show "\<exists>nodes'. pop_node i nodes sz = Some (nodes', sz - 1) \<and> mset nodes' = mset nodes"
    using e by blast
next
  from restore_trial_sorted[OF assms, of ri sz0]
  obtain nodes' where e: "restore_trial nodes ri sz sz0 = Some (nodes', sz)"
    and m: "mset (take sz nodes') = mset (take sz nodes)" and d: "drop sz nodes' = drop sz nodes"
    by blast
  from m d have "mset nodes' = mset nodes" by (rule mset_take_drop)
  then show "\<exists>nodes'. restore_trial nodes ri sz sz0 = Some (nodes', sz) \<and> mset nodes' = mset nodes"
    using e by blast
qed

theorem compute_permutes_nodes_witness:
  "6 \<le> length scan \<and>
   compute exact params (\<lambda>k. 1) scan 6 =
     Some \<lparr>out_nodes = [off4, off5, nd 3, nd 1, nd 2, nd 0],
           out_this = params\<lparr>reg_lines := [\<lparr>line_m = 1, line_b = 0\<rparr>]\<rparr>,
           out_size = 2, out_trials = 2\<rparr> \<and>
   mset [off4, off5, nd 3, nd 1, nd 2, nd 0] = mset scan"
proof -
  let ?res = "[off4, off5, nd 3, nd 1, nd 2, nd 0]"
  have h: "6 \<le> length scan" by (simp add: scan_def)
  have e: "compute exact params (\<lambda>k. 1) scan 6 =
     Some \<lparr>out_nodes = ?res,
           out_this = params\<lparr>reg_lines := [\<lparr>line_m = 1, line_b = 0\<rparr>]\<rparr>,
           out_size = 2, out_trials = 2\<rparr>"
    by code_simp
  from compute_permutes_nodes[OF h, of exact params "\<lambda>k. 1"]
  obtain out where "compute exact params (\<lambda>k. 1) scan 6 = Some out"
    and m: "mset (take 6 (out_nodes out)) = mset (take 6 scan)" by blast
  with e have "out_nodes out = ?res" by auto
  with m have "mset (take 6 ?res) = mset (take 6 scan)" by simp
  then have "mset ?res = mset scan" by (simp add: scan_def)
  then show ?thesis using h e by blast
qed

text \<open>
  C2. A trial that fails (it leaves \<^verbatim>\<open>reg_lines\<close> as it was) ends in the state
  \<open>restore_trial\<close> returns: \<^verbatim>\<open>size\<close> is again the size the trial started with, and the
  range below it is a permutation of what it was when the trial started and is sorted by
  ascending angle.
\<close>

theorem failed_trial_restored:
  assumes "0 < sz" and "sz \<le> length nodes"
    and "trial ar this r (nodes, sz, lines) = Some (nodes', sz', lines)"
  shows "sz' = sz \<and>
         mset (take sz nodes') = mset (take sz nodes) \<and>
         sorted (map angle (take sz nodes')) \<and>
         (\<exists>nodes3 sz3 ri. restore_trial nodes3 ri sz sz3 = Some (nodes', sz') \<and>
            mset (take sz nodes3) = mset (take sz nodes))"
proof -
  from trial_steps[OF assms(1,2), of ar this r lines]
  obtain seed nodes3 sz3 refit ri n' s' l' where
    t: "trial ar this r (nodes, sz, lines) = Some (n', s', l')"
    and w3: "trial_inv sz nodes (nodes3, sz3)"
    and c1: "seed \<noteq> None \<and> line_consensus this \<le> int sz - int sz3 \<and> refit \<noteq> None
      \<longrightarrow> (\<exists>l. refit = Some l \<and> l' = lines @ [l]) \<and> n' = nodes3 \<and> s' = sz3"
    and c2: "\<not> (seed \<noteq> None \<and> line_consensus this \<le> int sz - int sz3 \<and> refit \<noteq> None)
      \<longrightarrow> l' = lines \<and> restore_trial nodes3 ri sz sz3 = Some (n', s') \<and>
           s' = sz \<and> sorted (map angle (take sz n'))"
    and m: "mset (take sz n') = mset (take sz nodes)"
    by blast
  from t assms(3) have eq: "n' = nodes'" "s' = sz'" "l' = lines" by simp_all
  have "\<not> (seed \<noteq> None \<and> line_consensus this \<le> int sz - int sz3 \<and> refit \<noteq> None)"
    using c1 eq(3) by auto
  with c2 have r: "restore_trial nodes3 ri sz sz3 = Some (n', s')" "s' = sz"
    "sorted (map angle (take sz n'))" by blast+
  from w3 have "mset (take sz nodes3) = mset (take sz nodes)" by (simp add: trial_inv_def)
  then show ?thesis using r m unfolding eq by blast
qed

theorem failed_trial_restored_witness:
  "(0::nat) < 2 \<and> 2 \<le> length [off5, off4, nd 3] \<and>
   trial exact params 0 ([off5, off4, nd 3], 2, [\<lparr>line_m = 1, line_b = 0\<rparr>])
     = Some ([off4, off5, nd 3], 2, [\<lparr>line_m = 1, line_b = 0\<rparr>]) \<and>
   mset (take 2 [off4, off5, nd 3]) = mset (take 2 [off5, off4, nd 3]) \<and>
   sorted (map angle (take 2 [off4, off5, nd 3]))"
proof -
  have h1: "(0::nat) < 2" by simp
  have h2: "2 \<le> length [off5, off4, nd 3]" by simp
  have h3: "trial exact params 0 ([off5, off4, nd 3], 2, [\<lparr>line_m = 1, line_b = 0\<rparr>])
     = Some ([off4, off5, nd 3], 2, [\<lparr>line_m = 1, line_b = 0\<rparr>])"
    by code_simp
  from failed_trial_restored[OF h1 h2 h3] h1 h2 h3 show ?thesis by blast
qed



text \<open>
  C8. When the caller passes an array whose first \<open>sz\<close> nodes are sorted by ascending angle,
  the active range is sorted by ascending angle in every state in which the loop of
  \<open>compute\<close> tests its condition, so at the start of every trial and when the loop ends.
\<close>

theorem active_range_sorted_at_trial_start:
  assumes "sz \<le> length nodes" and "sorted (map angle (take sz nodes))"
    and "loop_head ar this rnd nodes sz k (nodes', sz', lines')"
  shows "sorted (map angle (take sz' nodes'))"
  using loop_head_inv[OF assms(3,1)] assms(2) by simp

theorem active_range_sorted_at_trial_start_witness:
  "6 \<le> length scan \<and> sorted (map angle (take 6 scan)) \<and>
   loop_head exact params (\<lambda>k. 1) scan 6 (Suc 0)
     ([off4, off5, nd 3, nd 1, nd 2, nd 0], 2, [\<lparr>line_m = 1, line_b = 0\<rparr>]) \<and>
   sorted (map angle (take 2 [off4, off5, nd 3, nd 1, nd 2, nd 0]))"
proof -
  have h1: "6 \<le> length scan" by (simp add: scan_def)
  have h2: "sorted (map angle (take 6 scan))" by (simp add: scan_def nd_def off4_def off5_def)
  have e: "trial exact params ((\<lambda>k. 1) 0) (scan, 6, [])
     = Some ([off4, off5, nd 3, nd 1, nd 2, nd 0], 2, [\<lparr>line_m = 1, line_b = 0\<rparr>])"
    by code_simp
  have z: "(0::nat) < 6" by simp
  have m: "int 0 < max_trials params" by (simp add: params_def)
  have h3: "loop_head exact params (\<lambda>k. 1) scan 6 (Suc 0)
     ([off4, off5, nd 3, nd 1, nd 2, nd 0], 2, [\<lparr>line_m = 1, line_b = 0\<rparr>])"
    by (rule loop_head.later[OF loop_head.first z m e])
  from active_range_sorted_at_trial_start[OF h1 h2 h3] h1 h2 h3 show ?thesis by blast
qed

text \<open>
  C9. \<open>compute\<close> is a total function: its loop is defined by recursion on
  \<open>max_trials - trial_count\<close>. Called on an array that holds at least \<open>sz\<close> nodes it
  returns without leaving the array, after at most \<open>max_trials\<close> trials, and it stops only
  when the active range is empty or the trial budget is used up; it never holds more lines
  than trials were run. With \<open>max_trials\<close> zero (or negative) it returns at once: no trial
  is run, \<^verbatim>\<open>reg_lines\<close> is empty whatever it held before, and the array and size are those of
  the call.
\<close>

theorem compute_stops_within_budget:
  "(sz \<le> length nodes \<longrightarrow>
      (\<exists>out. compute ar this rnd nodes sz = Some out \<and>
         int (out_trials out) \<le> max 0 (max_trials this) \<and>
         (out_size out = 0 \<or> max_trials this \<le> int (out_trials out)) \<and>
         length (reg_lines (out_this out)) \<le> out_trials out)) \<and>
   (max_trials this \<le> 0 \<longrightarrow>
      compute ar this rnd nodes sz =
        Some \<lparr>out_nodes = nodes, out_this = this\<lparr>reg_lines := []\<rparr>,
              out_size = sz, out_trials = 0\<rparr>)"
proof (intro conjI impI)
  assume a: "sz \<le> length nodes"
  from compute_returns[OF a, of ar this rnd]
  obtain out where e: "compute ar this rnd nodes sz = Some out"
    and h: "loop_head ar this rnd nodes sz (out_trials out)
             (out_nodes out, out_size out, reg_lines (out_this out))"
    and n: "\<not> (0 < out_size out \<and> int (out_trials out) < max_trials this)"
    by blast
  from loop_head_inv[OF h a] have
    "length (reg_lines (out_this out)) \<le> out_trials out"
    "int (out_trials out) \<le> max 0 (max_trials this)" by simp_all
  moreover from n have "out_size out = 0 \<or> max_trials this \<le> int (out_trials out)" by auto
  ultimately show "\<exists>out. compute ar this rnd nodes sz = Some out \<and>
         int (out_trials out) \<le> max 0 (max_trials this) \<and>
         (out_size out = 0 \<or> max_trials this \<le> int (out_trials out)) \<and>
         length (reg_lines (out_this out)) \<le> out_trials out"
    using e by blast
next
  assume "max_trials this \<le> 0"
  then have "compute_loop ar this rnd 0 (nodes, sz, []) = Some (nodes, sz, [], 0)"
    by (subst compute_loop.simps) simp
  then show "compute ar this rnd nodes sz =
        Some \<lparr>out_nodes = nodes, out_this = this\<lparr>reg_lines := []\<rparr>,
              out_size = sz, out_trials = 0\<rparr>"
    by (simp add: compute_def)
qed

theorem compute_stops_within_budget_witness:
  "6 \<le> length scan \<and>
   compute exact params (\<lambda>k. 1) scan 6 =
     Some \<lparr>out_nodes = [off4, off5, nd 3, nd 1, nd 2, nd 0],
           out_this = params\<lparr>reg_lines := [\<lparr>line_m = 1, line_b = 0\<rparr>]\<rparr>,
           out_size = 2, out_trials = 2\<rparr> \<and>
   int 2 \<le> max 0 (max_trials params) \<and>
   max_trials (params\<lparr>max_trials := 0\<rparr>) \<le> 0 \<and>
   reg_lines params = [\<lparr>line_m = 7, line_b = 7\<rparr>] \<and>
   compute exact (params\<lparr>max_trials := 0\<rparr>) (\<lambda>k. 1) scan 6 =
     Some \<lparr>out_nodes = scan, out_this = params\<lparr>max_trials := 0, reg_lines := []\<rparr>,
           out_size = 6, out_trials = 0\<rparr>"
proof -
  have h1: "6 \<le> length scan" by (simp add: scan_def)
  have h2: "max_trials (params\<lparr>max_trials := 0\<rparr>) \<le> 0" by simp
  have e: "compute exact params (\<lambda>k. 1) scan 6 =
     Some \<lparr>out_nodes = [off4, off5, nd 3, nd 1, nd 2, nd 0],
           out_this = params\<lparr>reg_lines := [\<lparr>line_m = 1, line_b = 0\<rparr>]\<rparr>,
           out_size = 2, out_trials = 2\<rparr>"
    by code_simp
  have r: "reg_lines params = [\<lparr>line_m = 7, line_b = 7\<rparr>]" by (simp add: params_def)
  from compute_stops_within_budget[of 6 scan exact params "\<lambda>k. 1"] h1
  obtain out where "compute exact params (\<lambda>k. 1) scan 6 = Some out"
    and "int (out_trials out) \<le> max 0 (max_trials params)" by blast
  with e have b: "int 2 \<le> max 0 (max_trials params)" by auto
  from compute_stops_within_budget[of 6 scan exact "params\<lparr>max_trials := 0\<rparr>" "\<lambda>k. 1"] h2
  have "compute exact (params\<lparr>max_trials := 0\<rparr>) (\<lambda>k. 1) scan 6 =
     Some \<lparr>out_nodes = scan, out_this = params\<lparr>max_trials := 0, reg_lines := []\<rparr>,
           out_size = 6, out_trials = 0\<rparr>"
    by blast
  then show ?thesis using h1 h2 e r b by blast
qed



subsection \<open>The sums of \<open>compute_reg_line\<close>\<close>

lemma sum_nodes_in_array:
  "sum_nodes ar i fin nodes s = Some s' \<Longrightarrow> i < fin \<Longrightarrow> fin \<le> length nodes"
proof (induction ar i fin nodes s rule: sum_nodes.induct)
  case (1 ar i fin nodes s)
  from "1.prems" have il: "i < length nodes"
    by (subst (asm) sum_nodes.simps) (auto simp: node_at_def split: if_splits)
  show ?case
  proof (cases "i + 1 < fin")
    case False
    then show ?thesis using il "1.prems"(2) by simp
  next
    case True
    let ?s1 = "\<lparr>x_sum = to_double ar (x_sum s + node_x (nodes ! i)),
                y_sum = to_double ar (y_sum s + node_y (nodes ! i)),
                x2_sum = to_double ar (x2_sum s + to_float ar (node_x (nodes ! i) * node_x (nodes ! i))),
                xy_sum = to_double ar (xy_sum s + to_float ar (node_x (nodes ! i) * node_y (nodes ! i)))\<rparr>"
    have a: "node_at nodes i = Some (nodes ! i)" using il by simp
    have "sum_nodes ar (i + 1) fin nodes ?s1 = Some s'"
      using "1.prems" a by (subst (asm) sum_nodes.simps) simp
    from "1.IH"[OF "1.prems"(2) a this True] show ?thesis .
  qed
qed

lemma sum_nodes_exact:
  "fin \<le> length nodes \<Longrightarrow>
   sum_nodes exact i fin nodes s =
     Some \<lparr>x_sum = x_sum s + (\<Sum>k = i..<fin. node_x (nodes ! k)),
           y_sum = y_sum s + (\<Sum>k = i..<fin. node_y (nodes ! k)),
           x2_sum = x2_sum s + (\<Sum>k = i..<fin. node_x (nodes ! k) * node_x (nodes ! k)),
           xy_sum = xy_sum s + (\<Sum>k = i..<fin. node_x (nodes ! k) * node_y (nodes ! k))\<rparr>"
proof (induction "exact" i fin nodes s rule: sum_nodes.induct)
  case (1 i fin nodes s)
  show ?case
  proof (cases "i < fin")
    case False
    then show ?thesis by (subst sum_nodes.simps) simp
  next
    case True
    have a: "node_at nodes i = Some (nodes ! i)" using True "1.prems" by simp
    show ?thesis
      using True a "1.hyps"[OF True a "1.prems"]
      by (subst sum_nodes.simps) (simp add: exact_def sum.atLeast_Suc_lessThan add.assoc)
  qed
qed

lemma compute_reg_line_unfold:
  assumes "sum_nodes ar start fin nodes \<lparr>x_sum = 0, y_sum = 0, x2_sum = 0, xy_sum = 0\<rparr> = Some s"
    and "int fin - int start \<noteq> 0"
  shows "compute_reg_line ar start fin nodes =
     (if reg_denom ar (int fin - int start) s = 0 then Some None
      else Some (Some \<lparr>line_m = to_float ar (to_double ar
                          (reg_m_num ar (int fin - int start) s
                             / reg_denom ar (int fin - int start) s)),
                       line_b = to_float ar (to_double ar
                          (reg_b_num ar s / reg_denom ar (int fin - int start) s))\<rparr>))"
  using assms by (simp add: compute_reg_line_def Let_def)

lemma compute_reg_line_fails:
  assumes "fin \<le> length nodes"
  shows "\<exists>s. sum_nodes ar start fin nodes \<lparr>x_sum = 0, y_sum = 0, x2_sum = 0, xy_sum = 0\<rparr> = Some s \<and>
     (compute_reg_line ar start fin nodes = Some None \<longleftrightarrow>
        int fin - int start = 0 \<or> reg_denom ar (int fin - int start) s = 0)"
proof -
  from sum_nodes_total[OF assms]
  obtain s where s: "sum_nodes ar start fin nodes
      \<lparr>x_sum = 0, y_sum = 0, x2_sum = 0, xy_sum = 0\<rparr> = Some s" by blast
  have "compute_reg_line ar start fin nodes = Some None \<longleftrightarrow>
        int fin - int start = 0 \<or> reg_denom ar (int fin - int start) s = 0"
  proof (cases "int fin - int start = 0")
    case True
    then show ?thesis by (simp add: compute_reg_line_def)
  next
    case False
    then show ?thesis by (simp add: compute_reg_line_unfold[OF s False])
  qed
  with s show ?thesis by blast
qed

lemma compute_reg_line_exact:
  assumes "fin \<le> length nodes" and "int fin - int start \<noteq> 0"
  shows "compute_reg_line exact start fin nodes =
     (let n = of_int (int fin - int start);
          sx = (\<Sum>k = start..<fin. node_x (nodes ! k));
          sy = (\<Sum>k = start..<fin. node_y (nodes ! k));
          sxx = (\<Sum>k = start..<fin. node_x (nodes ! k) * node_x (nodes ! k));
          sxy = (\<Sum>k = start..<fin. node_x (nodes ! k) * node_y (nodes ! k))
      in if n * sxx - sx * sx = 0 then Some None
         else Some (Some \<lparr>line_m = (n * sxy - sx * sy) / (n * sxx - sx * sx),
                          line_b = (sy * sxx - sx * sxy) / (n * sxx - sx * sx)\<rparr>))"
  unfolding compute_reg_line_unfold[OF sum_nodes_exact[OF assms(1)] assms(2)]
  by (simp add: Let_def reg_denom_def reg_m_num_def reg_b_num_def exact_def)

subsection \<open>Claims on \<open>compute_reg_line\<close>\<close>

lemma compute_reg_line_Some_range:
  assumes "compute_reg_line exact start fin nodes = Some (Some line)"
  shows "start < fin \<and> fin \<le> length nodes"
proof -
  have nz: "int fin - int start \<noteq> 0"
    using assms by (auto simp: compute_reg_line_def)
  have lt: "start < fin"
  proof (rule ccontr)
    assume "\<not> start < fin"
    then have f: "fin \<le> start" by simp
    then have s: "sum_nodes exact start fin nodes \<lparr>x_sum = 0, y_sum = 0, x2_sum = 0, xy_sum = 0\<rparr>
        = Some \<lparr>x_sum = 0, y_sum = 0, x2_sum = 0, xy_sum = 0\<rparr>"
      by (subst sum_nodes.simps) simp
    have "compute_reg_line exact start fin nodes = Some None"
      unfolding compute_reg_line_unfold[OF s nz] by (simp add: reg_denom_def exact_def)
    with assms show False by simp
  qed
  from assms nz obtain s where
    "sum_nodes exact start fin nodes \<lparr>x_sum = 0, y_sum = 0, x2_sum = 0, xy_sum = 0\<rparr> = Some s"
    by (cases "sum_nodes exact start fin nodes \<lparr>x_sum = 0, y_sum = 0, x2_sum = 0, xy_sum = 0\<rparr>")
       (auto simp: compute_reg_line_def)
  from sum_nodes_in_array[OF this lt] lt show ?thesis by simp
qed

lemma compute_reg_line_exact_fit:
  assumes "compute_reg_line exact start fin nodes = Some (Some line)"
  shows "let n = of_nat (fin - start);
             sx = (\<Sum>k = start..<fin. node_x (nodes ! k));
             sy = (\<Sum>k = start..<fin. node_y (nodes ! k));
             sxx = (\<Sum>k = start..<fin. node_x (nodes ! k) * node_x (nodes ! k));
             sxy = (\<Sum>k = start..<fin. node_x (nodes ! k) * node_y (nodes ! k))
         in start < fin \<and> fin \<le> length nodes \<and>
            n * sxx - sx * sx \<noteq> 0 \<and>
            line_m line = (n * sxy - sx * sy) / (n * sxx - sx * sx) \<and>
            line_b line = (sy * sxx - sx * sxy) / (n * sxx - sx * sx) \<and>
            ((\<forall>k \<in> {start..<fin}. node_y (nodes ! k) = 2 * node_x (nodes ! k) + 3)
               \<longrightarrow> line_m line = 2 \<and> line_b line = 3)"
proof -
  define n :: rat where "n = of_nat (fin - start)"
  define sx where "sx = (\<Sum>k = start..<fin. node_x (nodes ! k))"
  define sy where "sy = (\<Sum>k = start..<fin. node_y (nodes ! k))"
  define sxx where "sxx = (\<Sum>k = start..<fin. node_x (nodes ! k) * node_x (nodes ! k))"
  define sxy where "sxy = (\<Sum>k = start..<fin. node_x (nodes ! k) * node_y (nodes ! k))"
  from compute_reg_line_Some_range[OF assms] have lt: "start < fin" and le: "fin \<le> length nodes"
    by simp_all
  have nz: "int fin - int start \<noteq> 0" using lt by simp
  have nn: "(of_int (int fin - int start) :: rat) = n"
    using lt by (simp add: n_def of_nat_diff)
  have u: "compute_reg_line exact start fin nodes =
      (if n * sxx - sx * sx = 0 then Some None
       else Some (Some \<lparr>line_m = (n * sxy - sx * sy) / (n * sxx - sx * sx),
                        line_b = (sy * sxx - sx * sxy) / (n * sxx - sx * sx)\<rparr>))"
    unfolding compute_reg_line_exact[OF le nz] nn Let_def sx_def sy_def sxx_def sxy_def ..
  have d: "n * sxx - sx * sx \<noteq> 0" using assms u by (auto split: if_splits)
  have l: "line = \<lparr>line_m = (n * sxy - sx * sy) / (n * sxx - sx * sx),
                   line_b = (sy * sxx - sx * sxy) / (n * sxx - sx * sx)\<rparr>"
    using assms u d by simp
  have m: "line_m line = (n * sxy - sx * sy) / (n * sxx - sx * sx)"
    and b: "line_b line = (sy * sxx - sx * sxy) / (n * sxx - sx * sx)"
    by (simp_all add: l)
  have on: "line_m line = 2 \<and> line_b line = 3"
    if a: "\<forall>k \<in> {start..<fin}. node_y (nodes ! k) = 2 * node_x (nodes ! k) + 3"
  proof -
    have c: "(\<Sum>k = start..<fin. (3::rat)) = 3 * n"
      by (simp add: n_def)
    have "sy = (\<Sum>k = start..<fin. 2 * node_x (nodes ! k) + 3)"
      unfolding sy_def using a by (intro sum.cong) simp_all
    also have "\<dots> = 2 * sx + (\<Sum>k = start..<fin. (3::rat))"
      by (simp add: sum.distrib sum_distrib_left[symmetric] sx_def del: sum_constant)
    finally have sy2: "sy = 2 * sx + 3 * n" unfolding c .
    have "sxy = (\<Sum>k = start..<fin. 2 * (node_x (nodes ! k) * node_x (nodes ! k))
                     + 3 * node_x (nodes ! k))"
      unfolding sxy_def using a by (intro sum.cong) (simp_all add: algebra_simps)
    then have sxy2: "sxy = 2 * sxx + 3 * sx"
      by (simp add: sum.distrib sum_distrib_left[symmetric] sx_def sxx_def)
    define dn where "dn = n * sxx - sx * sx"
    have dz: "dn \<noteq> 0" using d by (simp add: dn_def)
    have "n * sxy - sx * sy = 2 * dn"
      unfolding sy2 sxy2 dn_def by (simp add: algebra_simps)
    then have "line_m line = 2 * dn / dn" using m by (simp add: dn_def)
    then have "line_m line = 2" using dz by simp
    moreover have "sy * sxx - sx * sxy = 3 * dn"
      unfolding sy2 sxy2 dn_def by (simp add: algebra_simps)
    then have "line_b line = 3 * dn / dn" using b by (simp add: dn_def)
    then have "line_b line = 3" using dz by simp
    ultimately show ?thesis by simp
  qed
  show ?thesis
    unfolding Let_def n_def[symmetric] sx_def[symmetric] sy_def[symmetric]
      sxx_def[symmetric] sxy_def[symmetric]
    using lt le d m b on by blast
qed

lemma compute_reg_line_rounded_fit:
  assumes "compute_reg_line ar start fin nodes = Some (Some line)"
  shows "\<exists>s. sum_nodes ar start fin nodes \<lparr>x_sum = 0, y_sum = 0, x2_sum = 0, xy_sum = 0\<rparr>
              = Some s \<and>
           reg_denom ar (int fin - int start) s \<noteq> 0 \<and>
           line_m line = to_float ar (to_double ar
             (reg_m_num ar (int fin - int start) s / reg_denom ar (int fin - int start) s)) \<and>
           line_b line = to_float ar (to_double ar
             (reg_b_num ar s / reg_denom ar (int fin - int start) s))"
proof -
  have nz: "int fin - int start \<noteq> 0"
    using assms by (auto simp: compute_reg_line_def)
  from assms nz obtain s where
    s: "sum_nodes ar start fin nodes \<lparr>x_sum = 0, y_sum = 0, x2_sum = 0, xy_sum = 0\<rparr> = Some s"
    by (cases "sum_nodes ar start fin nodes \<lparr>x_sum = 0, y_sum = 0, x2_sum = 0, xy_sum = 0\<rparr>")
       (auto simp: compute_reg_line_def)
  note u = compute_reg_line_unfold[OF s nz]
  have d: "reg_denom ar (int fin - int start) s \<noteq> 0"
    using assms u by (auto split: if_splits)
  have "line = \<lparr>line_m = to_float ar (to_double ar
             (reg_m_num ar (int fin - int start) s / reg_denom ar (int fin - int start) s)),
           line_b = to_float ar (to_double ar
             (reg_b_num ar s / reg_denom ar (int fin - int start) s))\<rparr>"
    using assms u d by simp
  then have "line_m line = to_float ar (to_double ar
             (reg_m_num ar (int fin - int start) s / reg_denom ar (int fin - int start) s))"
    and "line_b line = to_float ar (to_double ar
             (reg_b_num ar s / reg_denom ar (int fin - int start) s))"
    by simp_all
  with s d show ?thesis by blast
qed

text \<open>
  What a successful fit returns. Whatever the rounding, the summation loop has returned
  its sums, the denominator computed from them is not zero, and slope and intercept are
  the quotients of the two numerators by that denominator, rounded to \<^verbatim>\<open>double\<close> and then to
  \<^verbatim>\<open>float\<close>. Without rounding these are the normal equations of least squares over the
  \<open>n = fin - start\<close> nodes at \<open>[start, fin)\<close>, and nodes on \<open>y = 2 x + 3\<close> give slope \<open>2\<close>
  and intercept \<open>3\<close>.
\<close>

lemma compute_reg_line_fit:
  "(compute_reg_line ar start fin nodes = Some (Some line) \<longrightarrow>
      (\<exists>s. sum_nodes ar start fin nodes \<lparr>x_sum = 0, y_sum = 0, x2_sum = 0, xy_sum = 0\<rparr>
              = Some s \<and>
           reg_denom ar (int fin - int start) s \<noteq> 0 \<and>
           line_m line = to_float ar (to_double ar
             (reg_m_num ar (int fin - int start) s / reg_denom ar (int fin - int start) s)) \<and>
           line_b line = to_float ar (to_double ar
             (reg_b_num ar s / reg_denom ar (int fin - int start) s)))) \<and>
   (compute_reg_line exact start fin nodes = Some (Some line) \<longrightarrow>
      (let n = of_nat (fin - start);
           sx = (\<Sum>k = start..<fin. node_x (nodes ! k));
           sy = (\<Sum>k = start..<fin. node_y (nodes ! k));
           sxx = (\<Sum>k = start..<fin. node_x (nodes ! k) * node_x (nodes ! k));
           sxy = (\<Sum>k = start..<fin. node_x (nodes ! k) * node_y (nodes ! k))
       in start < fin \<and> fin \<le> length nodes \<and>
          n * sxx - sx * sx \<noteq> 0 \<and>
          line_m line = (n * sxy - sx * sy) / (n * sxx - sx * sx) \<and>
          line_b line = (sy * sxx - sx * sxy) / (n * sxx - sx * sx) \<and>
          ((\<forall>k \<in> {start..<fin}. node_y (nodes ! k) = 2 * node_x (nodes ! k) + 3)
             \<longrightarrow> line_m line = 2 \<and> line_b line = 3)))"
proof (intro conjI impI)
  assume "compute_reg_line ar start fin nodes = Some (Some line)"
  then show "\<exists>s. sum_nodes ar start fin nodes \<lparr>x_sum = 0, y_sum = 0, x2_sum = 0, xy_sum = 0\<rparr>
              = Some s \<and>
           reg_denom ar (int fin - int start) s \<noteq> 0 \<and>
           line_m line = to_float ar (to_double ar
             (reg_m_num ar (int fin - int start) s / reg_denom ar (int fin - int start) s)) \<and>
           line_b line = to_float ar (to_double ar
             (reg_b_num ar s / reg_denom ar (int fin - int start) s))"
    by (rule compute_reg_line_rounded_fit)
next
  assume "compute_reg_line exact start fin nodes = Some (Some line)"
  then show "let n = of_nat (fin - start);
           sx = (\<Sum>k = start..<fin. node_x (nodes ! k));
           sy = (\<Sum>k = start..<fin. node_y (nodes ! k));
           sxx = (\<Sum>k = start..<fin. node_x (nodes ! k) * node_x (nodes ! k));
           sxy = (\<Sum>k = start..<fin. node_x (nodes ! k) * node_y (nodes ! k))
       in start < fin \<and> fin \<le> length nodes \<and>
          n * sxx - sx * sx \<noteq> 0 \<and>
          line_m line = (n * sxy - sx * sy) / (n * sxx - sx * sx) \<and>
          line_b line = (sy * sxx - sx * sxy) / (n * sxx - sx * sx) \<and>
          ((\<forall>k \<in> {start..<fin}. node_y (nodes ! k) = 2 * node_x (nodes ! k) + 3)
             \<longrightarrow> line_m line = 2 \<and> line_b line = 3)"
    by (rule compute_reg_line_exact_fit)
qed

text \<open>
  When \<open>compute_reg_line\<close> returns failure. On a range inside the array the summation loop
  returns its sums \<open>s\<close>, and the function returns failure exactly when the node count
  \<open>fin - start\<close> is zero or the denominator it computes from \<open>s\<close> is zero, whatever the
  rounding; fitting no node returns failure. Without rounding that denominator is
  \<open>n \<Sigma>x\<^sup>2 - (\<Sigma>x)\<^sup>2\<close>, which is zero for a single node and for nodes that all have the same
  \<open>x\<close>: these are the inputs the test \<^verbatim>\<open>m_denom == 0.0f\<close> is there for.
\<close>

lemma compute_reg_line_fails_when:
  assumes "fin \<le> length nodes"
  shows "(\<exists>s. sum_nodes ar start fin nodes \<lparr>x_sum = 0, y_sum = 0, x2_sum = 0, xy_sum = 0\<rparr>
               = Some s \<and>
            (compute_reg_line ar start fin nodes = Some None \<longleftrightarrow>
               int fin - int start = 0 \<or> reg_denom ar (int fin - int start) s = 0)) \<and>
         compute_reg_line ar start start nodes = Some None \<and>
         (compute_reg_line exact start fin nodes = Some None \<longleftrightarrow>
            int fin - int start = 0 \<or>
            of_int (int fin - int start)
                * (\<Sum>k = start..<fin. node_x (nodes ! k) * node_x (nodes ! k))
              - (\<Sum>k = start..<fin. node_x (nodes ! k))
                * (\<Sum>k = start..<fin. node_x (nodes ! k)) = (0::rat)) \<and>
         (fin = Suc start \<longrightarrow> compute_reg_line exact start fin nodes = Some None) \<and>
         ((\<forall>k \<in> {start..<fin}. node_x (nodes ! k) = c)
            \<longrightarrow> compute_reg_line exact start fin nodes = Some None)"
proof -
  let ?n = "of_int (int fin - int start) :: rat"
  let ?sx = "\<Sum>k = start..<fin. node_x (nodes ! k)"
  let ?sxx = "\<Sum>k = start..<fin. node_x (nodes ! k) * node_x (nodes ! k)"
  have a: "\<exists>s. sum_nodes ar start fin nodes \<lparr>x_sum = 0, y_sum = 0, x2_sum = 0, xy_sum = 0\<rparr>
               = Some s \<and>
            (compute_reg_line ar start fin nodes = Some None \<longleftrightarrow>
               int fin - int start = 0 \<or> reg_denom ar (int fin - int start) s = 0)"
    by (rule compute_reg_line_fails[OF assms])
  have b: "compute_reg_line ar start start nodes = Some None"
    by (simp add: compute_reg_line_def)
  have c: "compute_reg_line exact start fin nodes = Some None \<longleftrightarrow>
            int fin - int start = 0 \<or> ?n * ?sxx - ?sx * ?sx = 0"
  proof (cases "int fin - int start = 0")
    case True
    then show ?thesis by (simp add: compute_reg_line_def)
  next
    case False
    show ?thesis
      unfolding compute_reg_line_exact[OF assms False] Let_def using False by simp
  qed
  have v: "compute_reg_line exact start fin nodes = Some None"
    if e: "\<forall>k \<in> {start..<fin}. node_x (nodes ! k) = c" for c
  proof (cases "start < fin")
    case False
    then have "?sx = 0" "?sxx = 0" by simp_all
    then show ?thesis using c by simp
  next
    case True
    have n: "?n = of_nat (fin - start)" using True by (simp add: of_nat_diff)
    have "?sx = (\<Sum>k = start..<fin. c)" using e by (intro sum.cong) simp_all
    then have sx: "?sx = ?n * c" unfolding n by simp
    have "?sxx = (\<Sum>k = start..<fin. c * c)" using e by (intro sum.cong) simp_all
    then have sxx: "?sxx = ?n * (c * c)" unfolding n by simp
    have "?n * ?sxx - ?sx * ?sx = 0" unfolding sx sxx by (simp add: algebra_simps)
    then show ?thesis using c by simp
  qed
  have d: "fin = Suc start \<longrightarrow> compute_reg_line exact start fin nodes = Some None"
  proof
    assume f: "fin = Suc start"
    have "\<forall>k \<in> {start..<fin}. node_x (nodes ! k) = node_x (nodes ! start)"
      unfolding f by simp
    then show "compute_reg_line exact start fin nodes = Some None" by (rule v)
  qed
  show ?thesis using a b c d v by blast
qed

text \<open>
  The rounding \<open>ieee\<close> on known values: the binary32 values nearest to \<open>1.1\<close> and to
  \<open>1/3\<close>, the binary64 value nearest to \<open>0.1\<close>, a tie that goes to the even significand,
  and a value that is already a binary32 number.
\<close>

lemma ieee_rounding_examples:
  "to_float ieee (11 / 10) = 9227469 / 8388608"
  "to_float ieee (1 / 3) = 11184811 / 33554432"
  "to_double ieee (1 / 10) = 3602879701896397 / 36028797018963968"
  "to_float ieee (16777217) = 16777216"
  "to_float ieee (16777219) = 16777220"
  "to_float ieee (9227469 / 8388608) = 9227469 / 8388608"
  by code_simp+

text \<open>
  C5. The three nodes of \<open>far_line\<close> are binary32 numbers and lie exactly on
  \<open>y = 2 x + 3\<close>. Without rounding \<open>compute_reg_line\<close> fits them with slope \<open>2\<close> and
  intercept \<open>3\<close>, as the normal equations give. With the rounding of binary32 and
  binary64 it returns slope \<open>5\<close> and intercept \<open>-15000\<close>: the \<^verbatim>\<open>float\<close> products
  \<^verbatim>\<open>n.x * n.x\<close> and \<^verbatim>\<open>n.x * n.y\<close> are rounded before they reach the \<^verbatim>\<open>double\<close> sums, while the
  products of the sums are \<^verbatim>\<open>double\<close> products. The three nodes of \<open>on_line\<close>, whose products
  are binary32 numbers, are fitted with slope \<open>2\<close> and intercept \<open>3\<close>.
\<close>

theorem far_line_misfit_under_rounding:
  "node_y (far_line ! 0) = 2 * node_x (far_line ! 0) + 3 \<and>
   node_y (far_line ! 1) = 2 * node_x (far_line ! 1) + 3 \<and>
   node_y (far_line ! 2) = 2 * node_x (far_line ! 2) + 3 \<and>
   map (\<lambda>n. to_float ieee (node_x n)) far_line = map node_x far_line \<and>
   map (\<lambda>n. to_float ieee (node_y n)) far_line = map node_y far_line \<and>
   compute_reg_line exact 0 3 far_line = Some (Some \<lparr>line_m = 2, line_b = 3\<rparr>) \<and>
   compute_reg_line ieee 0 3 far_line = Some (Some \<lparr>line_m = 5, line_b = - 15000\<rparr>) \<and>
   compute_reg_line ieee 0 3 on_line = Some (Some \<lparr>line_m = 2, line_b = 3\<rparr>)"
proof (intro conjI)
  show "node_y (far_line ! 0) = 2 * node_x (far_line ! 0) + 3"
    and "node_y (far_line ! 1) = 2 * node_x (far_line ! 1) + 3"
    and "node_y (far_line ! 2) = 2 * node_x (far_line ! 2) + 3"
    by (simp_all add: far_line_def)
  show "map (\<lambda>n. to_float ieee (node_x n)) far_line = map node_x far_line"
    by code_simp
  show "map (\<lambda>n. to_float ieee (node_y n)) far_line = map node_y far_line"
    by code_simp
  show "compute_reg_line exact 0 3 far_line = Some (Some \<lparr>line_m = 2, line_b = 3\<rparr>)"
    by code_simp
  show "compute_reg_line ieee 0 3 far_line = Some (Some \<lparr>line_m = 5, line_b = - 15000\<rparr>)"
    by code_simp
  show "compute_reg_line ieee 0 3 on_line = Some (Some \<lparr>line_m = 2, line_b = 3\<rparr>)"
    by code_simp
qed

text \<open>
  C4. The two nodes of \<open>vertical\<close> have the same \<open>x\<close>, the binary32 number
  \<open>9227469 / 2\<^sup>2\<^sup>3\<close> (the value of \<^verbatim>\<open>1.1f\<close>). Without rounding, fitting the first node alone and
  fitting both nodes return failure: the denominator is zero. With the rounding of
  binary32 and binary64 both fits succeed, the second with the horizontal line
  \<open>y = 1/2\<close>: the square of \<open>x\<close> is not a binary32 number, so the \<^verbatim>\<open>float\<close> product
  \<^verbatim>\<open>n.x * n.x\<close> is rounded, while the \<^verbatim>\<open>double\<close> product \<^verbatim>\<open>x_sum * x_sum\<close> is exact, and the
  denominator the code tests is not zero.
\<close>

theorem vertical_nodes_fit_under_rounding:
  "node_x (vertical ! 0) = to_float ieee (11 / 10) \<and>
   node_x (vertical ! 1) = node_x (vertical ! 0) \<and>
   compute_reg_line exact 0 1 vertical = Some None \<and>
   compute_reg_line exact 0 2 vertical = Some None \<and>
   compute_reg_line ieee 0 1 vertical = Some (Some \<lparr>line_m = 0, line_b = 0\<rparr>) \<and>
   compute_reg_line ieee 0 2 vertical = Some (Some \<lparr>line_m = 0, line_b = 1 / 2\<rparr>)"
proof (intro conjI)
  show "node_x (vertical ! 0) = to_float ieee (11 / 10)"
    by code_simp
  show "node_x (vertical ! 1) = node_x (vertical ! 0)"
    by (simp add: vertical_def)
  show "compute_reg_line exact 0 1 vertical = Some None"
    by code_simp
  show "compute_reg_line exact 0 2 vertical = Some None"
    by code_simp
  show "compute_reg_line ieee 0 1 vertical = Some (Some \<lparr>line_m = 0, line_b = 0\<rparr>)"
    by code_simp
  show "compute_reg_line ieee 0 2 vertical = Some (Some \<lparr>line_m = 0, line_b = 1 / 2\<rparr>)"
    by code_simp
qed

end
